theory Spec2Isabelle
  imports Complex_Main
begin

section \<open>Numbers and helpers shared by the components\<close>

text \<open>
  Grain counts, coordinates, indices and iteration counters are JavaScript numbers that
  only ever hold integers in the code paths below; they are modelled as \<open>int\<close>.
  Rates, times and the randomness factor are modelled as \<open>real\<close>.

  The remainder operator \<^verbatim>\<open>%\<close> of JavaScript truncates towards zero: its result has
  the sign of the dividend. (The code divides by 4 and by the buffer size; for a divisor
  0 JavaScript gives \<^verbatim>\<open>NaN\<close>, which the model does not represent.)
\<close>

definition js_rem :: "int \<Rightarrow> int \<Rightarrow> int" where
  "js_rem a b = (if 0 \<le> a then a mod \<bar>b\<bar> else - ((- a) mod \<bar>b\<bar>))"

text \<open>
  \<^verbatim>\<open>Math.random()\<close> returns a number in the half-open interval from 0 to 1. The
  generator is an oracle \<open>rand\<close>: its \<open>k\<close>-th value is reduced to its fractional part, so
  that every oracle is a legal sequence of draws.
\<close>

definition Math_random :: "(nat \<Rightarrow> real) \<Rightarrow> nat \<Rightarrow> real" where
  "Math_random rand k = frac (rand k)"

text \<open>
  A JavaScript \<^verbatim>\<open>Set\<close> iterates in insertion order and ignores the insertion of a member.
\<close>

definition set_add :: "'a \<Rightarrow> 'a list \<Rightarrow> 'a list" where
  "set_add k ks = (if k \<in> set ks then ks else ks @ [k])"

section \<open>MathUtils\<close>

type_synonym cell = "int \<times> int"

definition isValidGridPosition :: "int \<Rightarrow> int \<Rightarrow> int \<Rightarrow> bool" where
  "isValidGridPosition x y gridSize \<longleftrightarrow> x \<ge> 0 \<and> x < gridSize \<and> y \<ge> 0 \<and> y < gridSize"

definition getNeighbors :: "int \<Rightarrow> int \<Rightarrow> cell list" where
  "getNeighbors x y = [(x - 1, y), (x + 1, y), (x, y - 1), (x, y + 1)]"

section \<open>SandPile (the Grid Engine)\<close>

text \<open>
  The fields of the class, in the constructor's order. The grid is the array of arrays
  \<^verbatim>\<open>grid[x][y]\<close>, read and written by coordinate; the unstable set holds the keys
  \<^verbatim>\<open>"x,y"\<close>, modelled as the coordinate pairs they are parsed back into.

  The code reads and writes \<^verbatim>\<open>grid[x][y]\<close> at coordinates that passed
  \<^verbatim>\<open>isValidGridPosition\<close> or that come from the unstable set, which only ever receives such
  coordinates; the grid of the model is a function of the coordinate pair.

  Two more components record what the code does to its environment and are never read
  by it: \<open>rngCalls\<close> counts the calls of \<^verbatim>\<open>Math.random()\<close> made so far (the position in
  the oracle), and \<open>exitedSand\<close> adds up every amount that the code subtracts from
  \<^verbatim>\<open>totalSand\<close> because a share went off the grid or a jitter amount found no candidate.
\<close>

record sandpile =
  size_p :: int
  criticalMass :: int
  grid :: "cell \<Rightarrow> int"
  unstableCells :: "cell list"
  randomnessFactor :: real
  totalSand :: int
  totalAvalanches :: int
  avalancheSize :: int
  rngCalls :: nat
  exitedSand :: int

definition SandPile :: "int \<Rightarrow> int \<Rightarrow> sandpile" where
  "SandPile sz cm =
     \<lparr> size_p = sz, criticalMass = cm, grid = (\<lambda>c. 0), unstableCells = [],
       randomnessFactor = 0, totalSand = 0, totalAvalanches = 0, avalancheSize = 0,
       rngCalls = 0, exitedSand = 0 \<rparr>"

definition addSand :: "int \<Rightarrow> int \<Rightarrow> int \<Rightarrow> sandpile \<Rightarrow> sandpile" where
  "addSand x y amount s =
     (if \<not> isValidGridPosition x y (size_p s) then s
      else
        let s1 = s\<lparr> grid := (grid s)((x, y) := grid s (x, y) + amount),
                    totalSand := totalSand s + amount \<rparr>
        in if grid s1 (x, y) \<ge> criticalMass s1
           then s1\<lparr> unstableCells := set_add (x, y) (unstableCells s1) \<rparr>
           else s1)"

definition getSand :: "sandpile \<Rightarrow> int \<Rightarrow> int \<Rightarrow> int" where
  "getSand s x y = (if \<not> isValidGridPosition x y (size_p s) then 0 else grid s (x, y))"

text \<open>
  The methods called during a relaxation pass change the object and the set
  \<^verbatim>\<open>newUnstableCells\<close> that the pass hands down; they are functions on the pair of both.
\<close>

type_synonym pass_state = "sandpile \<times> cell list"

definition addSandToCell :: "int \<Rightarrow> int \<Rightarrow> int \<Rightarrow> pass_state \<Rightarrow> pass_state" where
  "addSandToCell x y amount st =
     (case st of (s, newUnstableCells) \<Rightarrow>
        let s1 = s\<lparr> grid := (grid s)((x, y) := grid s (x, y) + amount) \<rparr>
        in if grid s1 (x, y) \<ge> criticalMass s1
           then (s1, set_add (x, y) newUnstableCells)
           else (s1, newUnstableCells))"

text \<open>
  The amount leaves the running total: \<^verbatim>\<open>this.totalSand -= amount\<close>, at each of the places
  where the code drops sand.
\<close>

definition loseSand :: "int \<Rightarrow> sandpile \<Rightarrow> sandpile" where
  "loseSand amount s =
     s\<lparr> totalSand := totalSand s - amount, exitedSand := exitedSand s + amount \<rparr>"

fun distributeToNeighbors :: "int \<Rightarrow> cell list \<Rightarrow> pass_state \<Rightarrow> pass_state" where
  "distributeToNeighbors sandPerNeighbor [] st = st"
| "distributeToNeighbors sandPerNeighbor ((nx, ny) # neighbors) (s, nu) =
     distributeToNeighbors sandPerNeighbor neighbors
       (if isValidGridPosition nx ny (size_p s)
        then addSandToCell nx ny sandPerNeighbor (s, nu)
        else (loseSand sandPerNeighbor s, nu))"

text \<open>
  The candidates of \<^verbatim>\<open>distributeJitteredSand\<close>: the two nested loops over \<open>dx\<close> and \<open>dy\<close>,
  each candidate with its weight.
\<close>

definition jitterCandidates :: "int \<Rightarrow> int \<Rightarrow> int \<Rightarrow> int \<Rightarrow> (cell \<times> real) list" where
  "jitterCandidates centerX centerY radius gridSize =
     concat (map (\<lambda>dx. concat (map (\<lambda>dy.
        if dx = 0 \<and> dy = 0 then []
        else if isValidGridPosition (centerX + dx) (centerY + dy) gridSize
                \<and> sqrt (of_int (dx * dx + dy * dy)) \<le> of_int radius
        then [((centerX + dx, centerY + dy), 1 / (1 + sqrt (of_int (dx * dx + dy * dy))))]
        else []) [- radius .. radius])) [- radius .. radius])"

text \<open>
  The weighted loop of \<^verbatim>\<open>distributeJitteredSand\<close>; it stops when nothing remains, and
  returns what remains with the state.
\<close>

fun jitterLoop :: "(cell \<times> real) list \<Rightarrow> real \<Rightarrow> int \<Rightarrow> int \<Rightarrow> pass_state \<Rightarrow> int \<times> pass_state" where
  "jitterLoop [] totalWeight totalJitter remainingJitter st = (remainingJitter, st)"
| "jitterLoop (((cx, cy), weight) # candidates) totalWeight totalJitter remainingJitter st =
     (if remainingJitter > 0 then
        let proportion = weight / totalWeight;
            amount = min remainingJitter \<lfloor>of_int totalJitter * proportion\<rfloor>
        in if amount > 0
           then jitterLoop candidates totalWeight totalJitter (remainingJitter - amount)
                  (addSandToCell cx cy amount st)
           else jitterLoop candidates totalWeight totalJitter remainingJitter st
      else (remainingJitter, st))"

definition distributeJitteredSand ::
  "(nat \<Rightarrow> real) \<Rightarrow> int \<Rightarrow> int \<Rightarrow> int \<Rightarrow> int \<Rightarrow> pass_state \<Rightarrow> pass_state" where
  "distributeJitteredSand rand centerX centerY totalJitter radius st =
     (case st of (s, nu) \<Rightarrow>
        let candidates = jitterCandidates centerX centerY radius (size_p s)
        in if candidates = [] then (loseSand totalJitter s, nu)
           else
             let totalWeight = foldl (\<lambda>sum candidate. sum + snd candidate) 0 candidates
             in case jitterLoop candidates totalWeight totalJitter totalJitter (s, nu) of
                  (remainingJitter, (s1, nu1)) \<Rightarrow>
                    if remainingJitter > 0 then
                      let u = Math_random rand (rngCalls s1);
                          s2 = s1\<lparr> rngCalls := rngCalls s1 + 1 \<rparr>;
                          randomCandidate =
                            candidates ! nat \<lfloor>u * of_nat (length candidates)\<rfloor>
                      in addSandToCell (fst (fst randomCandidate)) (snd (fst randomCandidate))
                           remainingJitter (s2, nu1)
                    else (s1, nu1))"

text \<open>
  The loop of \<^verbatim>\<open>distributeWithRandomness\<close> over the base neighbours. (The map
  \<^verbatim>\<open>distributionMap\<close> that the method fills first is never read.)
\<close>

fun distributeWithRandomness ::
  "(nat \<Rightarrow> real) \<Rightarrow> int \<Rightarrow> cell list \<Rightarrow> pass_state \<Rightarrow> pass_state" where
  "distributeWithRandomness rand sandPerNeighbor [] st = st"
| "distributeWithRandomness rand sandPerNeighbor ((nx, ny) # baseNeighbors) (s, nu) =
     distributeWithRandomness rand sandPerNeighbor baseNeighbors
       (if \<not> isValidGridPosition nx ny (size_p s)
        then (loseSand sandPerNeighbor s, nu)
        else
          let randomnessIntensity = randomnessFactor s;
              jitterRadius = \<lceil>randomnessIntensity * 2\<rceil>;
              u = Math_random rand (rngCalls s);
              s1 = s\<lparr> rngCalls := rngCalls s + 1 \<rparr>;
              jitterAmount = \<lfloor>of_int sandPerNeighbor * randomnessIntensity * u\<rfloor>;
              stableAmount = sandPerNeighbor - jitterAmount;
              st1 = addSandToCell nx ny stableAmount (s1, nu)
          in if jitterAmount > 0
             then distributeJitteredSand rand nx ny jitterAmount jitterRadius st1
             else st1)"

definition topple :: "(nat \<Rightarrow> real) \<Rightarrow> int \<Rightarrow> int \<Rightarrow> pass_state \<Rightarrow> pass_state" where
  "topple rand x y st =
     (case st of (s, newUnstableCells) \<Rightarrow>
        let sandToDistribute = grid s (x, y);
            sandPerNeighbor = sandToDistribute div 4;
            remainder = js_rem sandToDistribute 4;
            s1 = s\<lparr> grid := (grid s)((x, y) := remainder) \<rparr>;
            neighbors = getNeighbors x y
        in case (if randomnessFactor s1 > 0
                 then distributeWithRandomness rand sandPerNeighbor neighbors (s1, newUnstableCells)
                 else distributeToNeighbors sandPerNeighbor neighbors (s1, newUnstableCells)) of
             (s2, nu2) \<Rightarrow>
               if grid s2 (x, y) \<ge> criticalMass s2 then (s2, set_add (x, y) nu2) else (s2, nu2))"

text \<open>
  The loop of \<^verbatim>\<open>processAvalanches\<close> over the unstable cells of the pass; the flag
  \<^verbatim>\<open>avalancheOccurred\<close> is carried along.
\<close>

fun processCells :: "(nat \<Rightarrow> real) \<Rightarrow> cell list \<Rightarrow> bool \<times> pass_state \<Rightarrow> bool \<times> pass_state" where
  "processCells rand [] acc = acc"
| "processCells rand ((x, y) # cellKeys) (avalancheOccurred, (s, nu)) =
     processCells rand cellKeys
       (if grid s (x, y) \<ge> criticalMass s
        then (case topple rand x y (s, nu) of
                (s1, nu1) \<Rightarrow> (True, (s1\<lparr> avalancheSize := avalancheSize s1 + 1 \<rparr>, nu1)))
        else (avalancheOccurred, (s, nu)))"

definition processAvalanches :: "(nat \<Rightarrow> real) \<Rightarrow> sandpile \<Rightarrow> bool \<times> sandpile" where
  "processAvalanches rand s =
     (if unstableCells s = [] then (False, s)
      else
        case processCells rand (unstableCells s) (False, (s\<lparr> avalancheSize := 0 \<rparr>, [])) of
          (avalancheOccurred, (s1, newUnstableCells)) \<Rightarrow>
            let s2 = s1\<lparr> unstableCells := newUnstableCells \<rparr>
            in if avalancheOccurred
               then (True, s2\<lparr> totalAvalanches := totalAvalanches s2 + 1 \<rparr>)
               else (False, s2))"

function stabilizeLoop :: "(nat \<Rightarrow> real) \<Rightarrow> int \<Rightarrow> int \<Rightarrow> sandpile \<Rightarrow> int \<times> sandpile" where
  "stabilizeLoop rand maxIterations iterations s =
     (if unstableCells s \<noteq> [] \<and> iterations < maxIterations
      then stabilizeLoop rand maxIterations (iterations + 1) (snd (processAvalanches rand s))
      else (iterations, s))"
  by pat_completeness auto
termination
  by (relation "measure (\<lambda>(rand, maxIterations, iterations, s). nat (maxIterations - iterations))")
     auto

declare stabilizeLoop.simps [simp del]

definition stabilize :: "(nat \<Rightarrow> real) \<Rightarrow> int \<Rightarrow> sandpile \<Rightarrow> int \<times> sandpile" where
  "stabilize rand maxIterations s = stabilizeLoop rand maxIterations 0 s"

text \<open>The default argument of \<^verbatim>\<open>stabilize\<close>.\<close>

definition stabilize_default :: "(nat \<Rightarrow> real) \<Rightarrow> sandpile \<Rightarrow> int \<times> sandpile" where
  "stabilize_default rand s = stabilize rand 1000 s"

definition isStable :: "sandpile \<Rightarrow> bool" where
  "isStable s \<longleftrightarrow> unstableCells s = []"

definition setRandomnessFactor :: "real \<Rightarrow> sandpile \<Rightarrow> sandpile" where
  "setRandomnessFactor factor s = s\<lparr> randomnessFactor := max 0 (min 1 factor) \<rparr>"

text \<open>
  The cells of the grid in the order of the double loop of \<^verbatim>\<open>getMaxHeight\<close>, the sum of all
  heights over them, and \<^verbatim>\<open>getMaxHeight\<close>.
\<close>

definition gridCells :: "int \<Rightarrow> cell list" where
  "gridCells gridSize = concat (map (\<lambda>x. map (\<lambda>y. (x, y)) [0 .. gridSize - 1]) [0 .. gridSize - 1])"

definition gridSum :: "sandpile \<Rightarrow> int" where
  "gridSum s = sum_list (map (grid s) (gridCells (size_p s)))"

definition getMaxHeight :: "sandpile \<Rightarrow> int" where
  "getMaxHeight s = foldl (\<lambda>maxHeight c. max maxHeight (grid s c)) 0 (gridCells (size_p s))"

text \<open>
  The calls a client of the Grid Engine makes, and a sequence of them run in order.
\<close>

datatype call =
    AddSand int int int
  | ProcessAvalanches
  | Stabilize int
  | SetRandomnessFactor real

fun perform :: "(nat \<Rightarrow> real) \<Rightarrow> sandpile \<Rightarrow> call \<Rightarrow> sandpile" where
  "perform rand s (AddSand x y amount) = addSand x y amount s"
| "perform rand s ProcessAvalanches = snd (processAvalanches rand s)"
| "perform rand s (Stabilize maxIterations) = snd (stabilize rand maxIterations s)"
| "perform rand s (SetRandomnessFactor factor) = setRandomnessFactor factor s"

definition run :: "(nat \<Rightarrow> real) \<Rightarrow> sandpile \<Rightarrow> call list \<Rightarrow> sandpile" where
  "run rand s calls = foldl (perform rand) s calls"

text \<open>
  What a sequence of calls adds to a grid of the given size: the amounts of the
  \<^verbatim>\<open>addSand\<close> calls whose coordinates are on the grid (the others add nothing).
\<close>

fun injected :: "int \<Rightarrow> call list \<Rightarrow> int" where
  "injected gridSize [] = 0"
| "injected gridSize (AddSand x y amount # calls) =
     (if isValidGridPosition x y gridSize then amount else 0) + injected gridSize calls"
| "injected gridSize (c # calls) = injected gridSize calls"

fun nonNegativeCall :: "call \<Rightarrow> bool" where
  "nonNegativeCall (AddSand x y amount) \<longleftrightarrow> 0 \<le> amount"
| "nonNegativeCall c \<longleftrightarrow> True"

section \<open>SandSource\<close>

record sandSource =
  gridX :: int
  gridY :: int
  sandRate :: real
  src_gridSize :: int
  accumulator :: real
  worldX :: real
  worldY :: real
  worldZ :: real
  id_src :: string
  active :: bool

text \<open>
  The constructor. The identifier is a random string in the code and a parameter here; the
  world coordinates are those of \<^verbatim>\<open>gridToWorld\<close> with its default world size 10.
\<close>

definition SandSource :: "int \<Rightarrow> int \<Rightarrow> real \<Rightarrow> int \<Rightarrow> string \<Rightarrow> sandSource" where
  "SandSource gx gy rate gsize ident =
     \<lparr> gridX = gx, gridY = gy, sandRate = rate, src_gridSize = gsize, accumulator = 0,
       worldX = (of_int gx - of_int gsize / 2) * (10 / of_int gsize),
       worldY = (of_int gy - of_int gsize / 2) * (10 / of_int gsize),
       worldZ = 5, id_src = ident, active = True \<rparr>"

definition source_update :: "real \<Rightarrow> real \<Rightarrow> sandSource \<Rightarrow> int \<times> sandSource" where
  "source_update deltaTime globalSpeedMultiplier src =
     (if \<not> active src then (0, src)
      else
        let effectiveRate = sandRate src * globalSpeedMultiplier;
            src1 = src\<lparr> accumulator := accumulator src + effectiveRate * deltaTime \<rparr>;
            grainsToAdd = \<lfloor>accumulator src1\<rfloor>
        in (grainsToAdd, src1\<lparr> accumulator := accumulator src1 - of_int grainsToAdd \<rparr>))"

definition getGridPosition :: "sandSource \<Rightarrow> cell" where
  "getGridPosition src = (gridX src, gridY src)"

section \<open>Simulation (the Simulation Controller)\<close>

record simulation =
  sandPile :: sandpile
  sources :: "sandSource list"
  targetFPS :: real
  targetFrameTime :: real
  lastUpdateTime :: real
  sim_accumulator :: real
  globalSpeed :: real
  paused :: bool
  sim_gridSize :: int
  frameCount :: int
  simulationTime :: real

text \<open>
  The constructor. The clock value and the sources that its calls of
  \<^verbatim>\<open>addRandomSource\<close> create at random are parameters.
\<close>

definition Simulation :: "int \<Rightarrow> int \<Rightarrow> real \<Rightarrow> real \<Rightarrow> sandSource list \<Rightarrow> simulation" where
  "Simulation gsize cm fps now initial =
     \<lparr> sandPile = SandPile gsize cm, sources = initial, targetFPS = fps,
       targetFrameTime = 1000 / fps, lastUpdateTime = now, sim_accumulator = 0,
       globalSpeed = 1, paused = False, sim_gridSize = gsize, frameCount = 0,
       simulationTime = 0 \<rparr>"

text \<open>
  The loop of \<^verbatim>\<open>updateSources\<close>: each source is updated in place and its grains go to
  the pile; the updated sources are collected in order.
\<close>

fun updateSourcesLoop ::
  "real \<Rightarrow> real \<Rightarrow> sandSource list \<Rightarrow> sandpile \<Rightarrow> sandSource list \<times> sandpile" where
  "updateSourcesLoop deltaTime speed [] pile = ([], pile)"
| "updateSourcesLoop deltaTime speed (src # rest) pile =
     (case source_update deltaTime speed src of
        (sandToAdd, src1) \<Rightarrow>
          let pile1 = (if sandToAdd > 0
                       then addSand (fst (getGridPosition src1)) (snd (getGridPosition src1))
                              sandToAdd pile
                       else pile)
          in case updateSourcesLoop deltaTime speed rest pile1 of
               (rest1, pile2) \<Rightarrow> (src1 # rest1, pile2))"

definition updateSources :: "real \<Rightarrow> simulation \<Rightarrow> simulation" where
  "updateSources deltaTime sim =
     (case updateSourcesLoop deltaTime (globalSpeed sim) (sources sim) (sandPile sim) of
        (srcs, pile) \<Rightarrow> sim\<lparr> sandPile := pile, sources := srcs \<rparr>)"

function frameLoop :: "(nat \<Rightarrow> real) \<Rightarrow> int \<Rightarrow> int \<Rightarrow> sandpile \<Rightarrow> sandpile" where
  "frameLoop rand maxIterationsPerFrame iterations pile =
     (if \<not> isStable pile \<and> iterations < maxIterationsPerFrame
      then frameLoop rand maxIterationsPerFrame (iterations + 1)
             (snd (processAvalanches rand pile))
      else pile)"
  by pat_completeness auto
termination
  by (relation "measure (\<lambda>(rand, m, iterations, pile). nat (m - iterations))") auto

declare frameLoop.simps [simp del]

definition sim_processAvalanches :: "(nat \<Rightarrow> real) \<Rightarrow> simulation \<Rightarrow> simulation" where
  "sim_processAvalanches rand sim = sim\<lparr> sandPile := frameLoop rand 5 0 (sandPile sim) \<rparr>"

text \<open>
  \<^verbatim>\<open>update\<close> reads the clock once; \<open>currentTime\<close> is the value that
  \<^verbatim>\<open>performance.now()\<close> returns there.
\<close>

definition sim_update :: "(nat \<Rightarrow> real) \<Rightarrow> real \<Rightarrow> simulation \<Rightarrow> simulation" where
  "sim_update rand currentTime sim =
     (if paused sim then sim
      else
        let deltaTime = (currentTime - lastUpdateTime sim) / 1000;
            sim1 = sim\<lparr> lastUpdateTime := currentTime \<rparr>;
            sim2 = sim1\<lparr> simulationTime := simulationTime sim1 + deltaTime \<rparr>;
            sim3 = sim2\<lparr> frameCount := frameCount sim2 + 1 \<rparr>;
            sim4 = updateSources deltaTime sim3
        in sim_processAvalanches rand sim4)"

definition setPaused :: "bool \<Rightarrow> real \<Rightarrow> simulation \<Rightarrow> simulation" where
  "setPaused p currentTime sim =
     (let sim1 = sim\<lparr> paused := p \<rparr>
      in if \<not> p then sim1\<lparr> lastUpdateTime := currentTime \<rparr> else sim1)"

text \<open>
  \<^verbatim>\<open>removeSource(index = -1)\<close>: the argument is absent (\<open>None\<close>) or an integer; the result
  is the removed source, or \<open>None\<close> for \<^verbatim>\<open>null\<close>. \<^verbatim>\<open>pop\<close> removes the last element and
  \<^verbatim>\<open>splice(index, 1)\<close> the element at \<open>index\<close>.
\<close>

definition removeSource :: "int option \<Rightarrow> simulation \<Rightarrow> sandSource option \<times> simulation" where
  "removeSource arg sim =
     (let index = (case arg of None \<Rightarrow> - 1 | Some i \<Rightarrow> i)
      in if length (sources sim) = 0 then (None, sim)
         else if index = - 1
         then (Some (last (sources sim)), sim\<lparr> sources := butlast (sources sim) \<rparr>)
         else if index \<ge> 0 \<and> index < int (length (sources sim))
         then (Some (sources sim ! nat index),
               sim\<lparr> sources := take (nat index) (sources sim) @ drop (nat index + 1) (sources sim) \<rparr>)
         else (None, sim))"

definition getSourceCount :: "simulation \<Rightarrow> int" where
  "getSourceCount sim = int (length (sources sim))"

section \<open>SeismographData (the Signal Deriver): the circular buffer\<close>

text \<open>
  An element of a \<^verbatim>\<open>Float32Array\<close> is a number or \<^verbatim>\<open>NaN\<close>. A read outside the array
  gives \<^verbatim>\<open>undefined\<close>, which a store into another \<^verbatim>\<open>Float32Array\<close> turns into \<^verbatim>\<open>NaN\<close>;
  a store outside the array is ignored. A new array holds zeros, and the constructor
  \<^verbatim>\<open>new Float32Array(n)\<close> raises a \<^verbatim>\<open>RangeError\<close> for a negative \<open>n\<close>. A store rounds
  to single precision; a sample of the model is the value as stored.
\<close>

datatype sample = Sample real | NaN

datatype js_error = RangeError

definition f32_get :: "sample list \<Rightarrow> int \<Rightarrow> sample" where
  "f32_get a i = (if 0 \<le> i \<and> i < int (length a) then a ! nat i else NaN)"

definition f32_set :: "sample list \<Rightarrow> int \<Rightarrow> sample \<Rightarrow> sample list" where
  "f32_set a i v = (if 0 \<le> i \<and> i < int (length a) then a[nat i := v] else a)"

definition new_Float32Array :: "int \<Rightarrow> sample list" where
  "new_Float32Array n = replicate (nat n) (Sample 0)"

text \<open>
  The fields of the class that the buffer methods use. The signal that \<^verbatim>\<open>update\<close>
  computes from the grid is a floating-point value with random noise; \<^verbatim>\<open>update\<close> pushes
  it with exactly one call of \<^verbatim>\<open>addSample\<close>, so a run of updates is a run of
  \<^verbatim>\<open>addSample\<close> on the samples they computed.
\<close>

record seismographData =
  bufferSize :: int
  signalBuffer :: "sample list"
  bufferIndex :: int
  bufferFull :: bool

definition SeismographData :: "int \<Rightarrow> seismographData" where
  "SeismographData n =
     \<lparr> bufferSize = n, signalBuffer = new_Float32Array n, bufferIndex = 0, bufferFull = False \<rparr>"

definition addSample :: "sample \<Rightarrow> seismographData \<Rightarrow> seismographData" where
  "addSample smp d =
     (let d1 = d\<lparr> signalBuffer := f32_set (signalBuffer d) (bufferIndex d) smp \<rparr>;
          d2 = d1\<lparr> bufferIndex := js_rem (bufferIndex d1 + 1) (bufferSize d1) \<rparr>
      in if bufferIndex d2 = 0 then d2\<lparr> bufferFull := True \<rparr> else d2)"

definition addSamples :: "sample list \<Rightarrow> seismographData \<Rightarrow> seismographData" where
  "addSamples smps d = foldl (\<lambda>d smp. addSample smp d) d smps"

definition getAvailableDataLength :: "seismographData \<Rightarrow> int" where
  "getAvailableDataLength d = (if bufferFull d then bufferSize d else bufferIndex d)"

text \<open>The loop \<^verbatim>\<open>for (let i = 0; i < n; i++) result[i] = f(i)\<close>.\<close>

definition fillLoop :: "int \<Rightarrow> (int \<Rightarrow> sample) \<Rightarrow> sample list \<Rightarrow> sample list" where
  "fillLoop n f result = foldl (\<lambda>r i. f32_set r i (f i)) result [0 .. n - 1]"

text \<open>
  \<^verbatim>\<open>getSignalData(length = null)\<close>: \<^verbatim>\<open>length || available\<close> takes the available length
  when the argument is absent or 0.
\<close>

definition getSignalData :: "int option \<Rightarrow> seismographData \<Rightarrow> js_error + sample list" where
  "getSignalData len d =
     (let dataLength = (case len of None \<Rightarrow> getAvailableDataLength d
                        | Some l \<Rightarrow> if l = 0 then getAvailableDataLength d else l)
      in if dataLength < 0 then Inl RangeError
         else
           let result = new_Float32Array dataLength
           in if \<not> bufferFull d \<and> bufferIndex d < dataLength
              then Inr (fillLoop (bufferIndex d) (\<lambda>i. f32_get (signalBuffer d) i) result)
              else Inr (fillLoop dataLength
                     (\<lambda>i. f32_get (signalBuffer d)
                            (js_rem (bufferIndex d - dataLength + i + bufferSize d) (bufferSize d)))
                     result))"

section \<open>Concrete inputs\<close>

text \<open>Two oracles for the random generator, and states used as concrete inputs below.\<close>

definition zeroOracle :: "nat \<Rightarrow> real" where
  "zeroOracle k = 0"

definition halfOracle :: "nat \<Rightarrow> real" where
  "halfOracle k = 1 / 2"

definition exampleSimulation :: simulation where
  "exampleSimulation =
     Simulation 8 4 60 0 [SandSource 3 3 (3 / 2) 8 ''a'', SandSource 5 2 1 8 ''b'']"

text \<open>
  A pile with critical mass 3 and one cell of height 3, after \<open>k\<close> passes: the cell
  topples in every pass, hands out nothing and keeps its 3 grains.
\<close>

definition stuckPile :: "nat \<Rightarrow> sandpile" where
  "stuckPile k =
     \<lparr> size_p = 8, criticalMass = 3, grid = (\<lambda>c. 0)((4, 4) := 3), unstableCells = [(4, 4)],
       randomnessFactor = 0, totalSand = 3, totalAvalanches = int k, avalancheSize = 1,
       rngCalls = 0, exitedSand = 0 \<rparr>"

section \<open>Invariants\<close>

text \<open>A call that leaves the randomness factor at 0.\<close>

fun keepsDeterministic :: "call \<Rightarrow> bool" where
  "keepsDeterministic (SetRandomnessFactor factor) \<longleftrightarrow> factor \<le> 0"
| "keepsDeterministic c \<longleftrightarrow> True"

text \<open>
  What the distribution methods do to a pass state, step by step: they add a non-negative
  amount to a cell of the grid, drop a non-negative amount from the running total, or draw
  a random number. \<open>spread st k st'\<close> holds when such steps lead from \<open>st\<close> to \<open>st'\<close> and
  move \<open>k\<close> grains in total.
\<close>

inductive spread :: "pass_state \<Rightarrow> int \<Rightarrow> pass_state \<Rightarrow> bool" where
  spread_refl: "spread st 0 st"
| spread_add: "spread st k (s, nu) \<Longrightarrow> isValidGridPosition x y (size_p s) \<Longrightarrow> 0 \<le> a
     \<Longrightarrow> spread st (k + a) (addSandToCell x y a (s, nu))"
| spread_lose: "spread st k (s, nu) \<Longrightarrow> 0 \<le> a \<Longrightarrow> spread st (k + a) (loseSand a s, nu)"
| spread_draw: "spread st k (s, nu) \<Longrightarrow> spread st k (s\<lparr> rngCalls := rngCalls s + 1 \<rparr>, nu)"

text \<open>
  The invariant of a pass state, the quantities that a pass keeps, the invariant of the
  pile between calls, and the property that every cell at or above the critical mass is
  in the unstable set.
\<close>

definition passInv :: "sandpile \<Rightarrow> cell list \<Rightarrow> bool" where
  "passInv s nu \<longleftrightarrow>
     (\<forall>c. 0 \<le> grid s c) \<and> 0 \<le> randomnessFactor s \<and> randomnessFactor s \<le> 1
     \<and> (\<forall>(x, y) \<in> set nu. isValidGridPosition x y (size_p s))"

definition sameFrame :: "sandpile \<Rightarrow> sandpile \<Rightarrow> bool" where
  "sameFrame s s' \<longleftrightarrow>
     size_p s' = size_p s \<and> criticalMass s' = criticalMass s
     \<and> randomnessFactor s' = randomnessFactor s
     \<and> totalSand s' + exitedSand s' = totalSand s + exitedSand s
     \<and> gridSum s' + exitedSand s' = gridSum s + exitedSand s
     \<and> exitedSand s \<le> exitedSand s'"

definition pileInv :: "sandpile \<Rightarrow> bool" where
  "pileInv s \<longleftrightarrow>
     (\<forall>c. 0 \<le> grid s c) \<and> 0 \<le> randomnessFactor s \<and> randomnessFactor s \<le> 1
     \<and> (\<forall>(x, y) \<in> set (unstableCells s). isValidGridPosition x y (size_p s))
     \<and> totalSand s = gridSum s"


text \<open>
  The invariant of the circular buffer after the samples \<open>xs\<close> have been pushed into a
  buffer of \<open>n\<close> places: the cursor, the flag, and the last \<open>n\<close> samples in their places.
\<close>

definition bufferInv :: "nat \<Rightarrow> sample list \<Rightarrow> seismographData \<Rightarrow> bool" where
  "bufferInv n xs d \<longleftrightarrow>
     bufferSize d = int n \<and> length (signalBuffer d) = n
     \<and> bufferIndex d = int (length xs mod n)
     \<and> (bufferFull d \<longleftrightarrow> n \<le> length xs)
     \<and> (\<forall>k < length xs. length xs - k \<le> n \<longrightarrow> signalBuffer d ! (k mod n) = xs ! k)"

text \<open>
  The number of cells of a list that lie off the grid, and the fields of the pile that
  the distribution methods leave alone or change by the amounts they drop.
\<close>

definition offGridCount :: "int \<Rightarrow> cell list \<Rightarrow> int" where
  "offGridCount gridSize cells =
     int (length (filter (\<lambda>(nx, ny). \<not> isValidGridPosition nx ny gridSize) cells))"

definition ledger :: "sandpile \<Rightarrow> int \<times> real \<times> int \<times> int" where
  "ledger s = (size_p s, randomnessFactor s, totalSand s, exitedSand s)"

section \<open>Lemmas\<close>

subsection \<open>The sum of the heights\<close>

lemma addSandToCell_eq:
  "addSandToCell x y a (s, nu) =
     (s\<lparr> grid := (grid s)((x, y) := grid s (x, y) + a) \<rparr>,
      if grid s (x, y) + a \<ge> criticalMass s then set_add (x, y) nu else nu)"
  by (simp add: addSandToCell_def Let_def)

lemma gridCells_product: "gridCells n = List.product [0 .. n - 1] [0 .. n - 1]"
  by (simp add: gridCells_def product_concat_map)

lemma distinct_gridCells: "distinct (gridCells n)"
  by (simp add: gridCells_product distinct_product)

lemma set_gridCells: "set (gridCells n) = {(x, y). isValidGridPosition x y n}"
  by (auto simp: gridCells_product isValidGridPosition_def)

lemma sum_list_upd:
  "distinct xs \<Longrightarrow> c \<in> set xs \<Longrightarrow>
     sum_list (map (f(c := v)) xs) = sum_list (map f xs) - f c + (v::int)"
proof (induction xs)
  case Nil
  then show ?case by simp
next
  case (Cons a xs)
  show ?case
  proof (cases "a = c")
    case True
    with Cons.prems have "c \<notin> set xs" by simp
    then have eq: "map (f(c := v)) xs = map f xs" by (intro map_cong) auto
    have "sum_list (map (f(c := v)) (a # xs)) = v + sum_list (map f xs)"
      using True by (simp only: list.map sum_list.Cons eq fun_upd_same)
    moreover have "sum_list (map f (a # xs)) = f c + sum_list (map f xs)"
      using True by (simp only: list.map sum_list.Cons)
    ultimately show ?thesis by linarith
  next
    case False
    with Cons show ?thesis by simp
  qed
qed

lemma gridSum_upd:
  "isValidGridPosition x y (size_p s) \<Longrightarrow>
     gridSum (s\<lparr> grid := (grid s)((x, y) := v) \<rparr>) = gridSum s - grid s (x, y) + v"
  by (simp add: gridSum_def sum_list_upd distinct_gridCells set_gridCells)

lemma gridSum_cong: "grid s' = grid s \<Longrightarrow> size_p s' = size_p s \<Longrightarrow> gridSum s' = gridSum s"
  by (simp add: gridSum_def)

subsection \<open>What the distribution steps keep\<close>

lemma loseSand_simps [simp]:
  "size_p (loseSand a s) = size_p s" "criticalMass (loseSand a s) = criticalMass s"
  "grid (loseSand a s) = grid s" "unstableCells (loseSand a s) = unstableCells s"
  "randomnessFactor (loseSand a s) = randomnessFactor s"
  "totalSand (loseSand a s) = totalSand s - a"
  "totalAvalanches (loseSand a s) = totalAvalanches s"
  "avalancheSize (loseSand a s) = avalancheSize s"
  "rngCalls (loseSand a s) = rngCalls s"
  "exitedSand (loseSand a s) = exitedSand s + a"
  by (simp_all add: loseSand_def)

lemma gridSum_loseSand [simp]: "gridSum (loseSand a s) = gridSum s"
  by (simp add: gridSum_def)

lemma gridSum_rngCalls [simp]: "gridSum (s\<lparr> rngCalls := k \<rparr>) = gridSum s"
  by (simp add: gridSum_def)

lemma spread_frame:
  "spread st0 k st \<Longrightarrow>
     size_p (fst st) = size_p (fst st0) \<and> criticalMass (fst st) = criticalMass (fst st0)
     \<and> randomnessFactor (fst st) = randomnessFactor (fst st0)
     \<and> unstableCells (fst st) = unstableCells (fst st0)
     \<and> totalAvalanches (fst st) = totalAvalanches (fst st0)
     \<and> avalancheSize (fst st) = avalancheSize (fst st0)"
  by (induction rule: spread.induct) (simp_all add: addSandToCell_eq)

lemma spread_total:
  "spread st0 k st \<Longrightarrow>
     totalSand (fst st) + exitedSand (fst st) = totalSand (fst st0) + exitedSand (fst st0)"
  by (induction rule: spread.induct) (simp_all add: addSandToCell_eq)

lemma spread_mass:
  "spread st0 k st \<Longrightarrow>
     gridSum (fst st) + exitedSand (fst st) = gridSum (fst st0) + exitedSand (fst st0) + k"
  by (induction rule: spread.induct) (simp_all add: addSandToCell_eq gridSum_upd)

lemma spread_exited: "spread st0 k st \<Longrightarrow> exitedSand (fst st0) \<le> exitedSand (fst st) \<and> 0 \<le> k"
  by (induction rule: spread.induct) (simp_all add: addSandToCell_eq)

lemma spread_mono: "spread st0 k st \<Longrightarrow> grid (fst st0) c \<le> grid (fst st) c"
  by (induction rule: spread.induct) (auto simp: addSandToCell_eq)

lemma spread_nu_mono: "spread st0 k st \<Longrightarrow> set (snd st0) \<subseteq> set (snd st)"
  by (induction rule: spread.induct) (auto simp: addSandToCell_eq set_add_def)

lemma spread_nu_valid:
  "spread st0 k st \<Longrightarrow> \<forall>(x, y) \<in> set (snd st0). isValidGridPosition x y (size_p (fst st0))
     \<Longrightarrow> \<forall>(x, y) \<in> set (snd st). isValidGridPosition x y (size_p (fst st))"
  by (induction rule: spread.induct) (auto simp: addSandToCell_eq set_add_def)


lemma spread_distributeToNeighbors:
  "0 \<le> n \<Longrightarrow> spread st k (s, nu) \<Longrightarrow>
     spread st (k + n * int (length ns)) (distributeToNeighbors n ns (s, nu))"
proof (induction ns arbitrary: s nu k)
  case Nil
  then show ?case by simp
next
  case (Cons c ns)
  obtain nx ny where c: "c = (nx, ny)" by (cases c)
  show ?case
  proof (cases "isValidGridPosition nx ny (size_p s)")
    case True
    obtain s1 nu1 where st1: "addSandToCell nx ny n (s, nu) = (s1, nu1)"
      by (cases "addSandToCell nx ny n (s, nu)")
    have "spread st (k + n) (s1, nu1)"
      using spread_add [OF Cons.prems(2) True Cons.prems(1)] st1 by simp
    from Cons.IH [OF Cons.prems(1) this] show ?thesis
      using True c st1 by (simp add: algebra_simps)
  next
    case False
    have "spread st (k + n) (loseSand n s, nu)"
      using spread_lose [OF Cons.prems(2) Cons.prems(1)] .
    from Cons.IH [OF Cons.prems(1) this] show ?thesis
      using False c by (simp add: algebra_simps)
  qed
qed

subsection \<open>The randomised distribution\<close>

lemma jitterCandidates_valid:
  "(c, w) \<in> set (jitterCandidates cx cy radius n) \<Longrightarrow> isValidGridPosition (fst c) (snd c) n"
  by (auto simp: jitterCandidates_def split: if_splits)

lemma size_addSandToCell [simp]: "size_p (fst (addSandToCell x y a st)) = size_p (fst st)"
  by (cases st) (simp add: addSandToCell_eq)

lemma spread_jitterLoop:
  "spread st k st1 \<Longrightarrow> size_p (fst st1) = n
   \<Longrightarrow> \<forall>(c, w) \<in> set cands. isValidGridPosition (fst c) (snd c) n
   \<Longrightarrow> 0 \<le> rem \<Longrightarrow> jitterLoop cands tw tj rem st1 = (rem', st2)
   \<Longrightarrow> spread st (k + rem - rem') st2 \<and> 0 \<le> rem'"
proof (induction cands arbitrary: k rem st1)
  case Nil
  then show ?case by simp
next
  case (Cons cw cands)
  obtain cx cy w where cw: "cw = ((cx, cy), w)" by (cases cw) auto
  obtain s1 nu1 where st1: "st1 = (s1, nu1)" by (cases st1)
  have valid: "isValidGridPosition cx cy (size_p s1)"
    using Cons.prems(2,3) cw st1 by auto
  have rest: "\<forall>(c, w) \<in> set cands. isValidGridPosition (fst c) (snd c) n"
    using Cons.prems(3) by simp
  define amount where "amount = min rem \<lfloor>of_int tj * (w / tw)\<rfloor>"
  show ?case
  proof (cases "rem > 0")
    case False
    with Cons.prems cw show ?thesis by simp
  next
    case pos: True
    show ?thesis
    proof (cases "amount > 0")
      case True
      have sp: "spread st (k + amount) (addSandToCell cx cy amount st1)"
        using spread_add [of st k s1 nu1 cx cy amount] Cons.prems(1) valid True st1 by simp
      have sz: "size_p (fst (addSandToCell cx cy amount st1)) = n"
        using Cons.prems(2) by simp
      have le: "0 \<le> rem - amount" by (simp add: amount_def)
      have run: "jitterLoop cands tw tj (rem - amount) (addSandToCell cx cy amount st1) = (rem', st2)"
        using Cons.prems(5) pos True cw by (simp add: amount_def Let_def)
      from Cons.IH [OF sp sz rest le run] show ?thesis by (simp add: algebra_simps)
    next
      case False
      have run: "jitterLoop cands tw tj rem st1 = (rem', st2)"
        using Cons.prems(5) pos False cw by (simp add: amount_def Let_def)
      from Cons.IH [OF Cons.prems(1,2) rest Cons.prems(4) run] show ?thesis .
    qed
  qed
qed

lemma random_index:
  "xs \<noteq> [] \<Longrightarrow> nat \<lfloor>Math_random rand k * of_nat (length xs)\<rfloor> < length xs"
proof -
  assume ne: "xs \<noteq> []"
  let ?u = "Math_random rand k"
  have u: "0 \<le> ?u" "?u < 1" by (simp_all add: Math_random_def frac_lt_1)
  have "?u * of_nat (length xs) < of_nat (length xs)"
    using u ne by simp
  then have "\<lfloor>?u * of_nat (length xs)\<rfloor> < int (length xs)"
    by (simp add: floor_less_iff)
  moreover have "0 < length xs" using ne by simp
  ultimately show ?thesis by linarith
qed

lemma spread_distributeJitteredSand:
  assumes "spread st k (s, nu)" "0 \<le> tj"
  shows "spread st (k + tj) (distributeJitteredSand rand cx cy tj radius (s, nu))"
proof -
  let ?cands = "jitterCandidates cx cy radius (size_p s)"
  show ?thesis
  proof (cases "?cands = []")
    case True
    then show ?thesis
      using spread_lose [OF assms] by (simp add: distributeJitteredSand_def)
  next
    case False
    let ?tw = "foldl (\<lambda>sum candidate. sum + snd candidate) 0 ?cands"
    obtain rem' s1 nu1 where run: "jitterLoop ?cands ?tw tj tj (s, nu) = (rem', (s1, nu1))"
      by (cases "jitterLoop ?cands ?tw tj tj (s, nu)") auto
    have vc: "\<forall>(c, w) \<in> set ?cands. isValidGridPosition (fst c) (snd c) (size_p s)"
      using jitterCandidates_valid by blast
    have sp: "spread st (k + tj - rem') (s1, nu1)" and rem': "0 \<le> rem'"
      using spread_jitterLoop [OF assms(1) _ vc assms(2) run] by simp_all
    have sz: "size_p s1 = size_p s"
      using spread_frame [OF sp] spread_frame [OF assms(1)] by simp
    show ?thesis
    proof (cases "rem' > 0")
      case True
      let ?i = "nat \<lfloor>Math_random rand (rngCalls s1) * of_nat (length ?cands)\<rfloor>"
      have "?i < length ?cands" using False by (rule random_index)
      then have "?cands ! ?i \<in> set ?cands" by simp
      then have v: "isValidGridPosition (fst (fst (?cands ! ?i))) (snd (fst (?cands ! ?i)))
                      (size_p (s1\<lparr> rngCalls := rngCalls s1 + 1 \<rparr>))"
        using jitterCandidates_valid [of "fst (?cands ! ?i)" "snd (?cands ! ?i)"] sz by simp
      from spread_add [OF spread_draw [OF sp] v rem'] show ?thesis
        using False run True by (simp add: distributeJitteredSand_def Let_def)
    next
      case no: False
      with rem' have "rem' = 0" by simp
      with sp show ?thesis
        using False run by (simp add: distributeJitteredSand_def Let_def)
    qed
  qed
qed

lemma spread_distributeWithRandomness:
  "0 \<le> n \<Longrightarrow> 0 \<le> randomnessFactor s \<Longrightarrow> randomnessFactor s \<le> 1 \<Longrightarrow> spread st k (s, nu) \<Longrightarrow>
     spread st (k + n * int (length ns)) (distributeWithRandomness rand n ns (s, nu))"
proof (induction ns arbitrary: s nu k)
  case Nil
  then show ?case by simp
next
  case (Cons c ns)
  obtain nx ny where c: "c = (nx, ny)" by (cases c)
  show ?case
  proof (cases "isValidGridPosition nx ny (size_p s)")
    case False
    have sp: "spread st (k + n) (loseSand n s, nu)"
      using spread_lose [OF Cons.prems(4) Cons.prems(1)] .
    from Cons.IH [OF Cons.prems(1) _ _ sp] Cons.prems(2,3) show ?thesis
      using False c by (simp add: algebra_simps)
  next
    case True
    let ?r = "randomnessFactor s"
    let ?u = "Math_random rand (rngCalls s)"
    let ?s1 = "s\<lparr> rngCalls := rngCalls s + 1 \<rparr>"
    define j where "j = \<lfloor>of_int n * ?r * ?u\<rfloor>"
    have u: "0 \<le> ?u" "?u < 1" by (simp_all add: Math_random_def frac_lt_1)
    have "0 \<le> ?r * ?u" using Cons.prems(2) u by simp
    moreover have "?r * ?u \<le> 1" using Cons.prems(2,3) u
      by (metis less_eq_real_def mult_le_one)
    ultimately have bounds: "0 \<le> of_int n * (?r * ?u)" "of_int n * (?r * ?u) \<le> of_int n"
      using Cons.prems(1) by (simp_all add: mult_left_le)
    have j0: "0 \<le> j" using bounds(1) by (simp add: j_def mult.assoc)
    have jn: "j \<le> n" using bounds(2) by (simp add: j_def mult.assoc floor_le_iff) 
    obtain s2 nu2 where st2: "addSandToCell nx ny (n - j) (?s1, nu) = (s2, nu2)"
      by (cases "addSandToCell nx ny (n - j) (?s1, nu)")
    have sp2: "spread st (k + (n - j)) (s2, nu2)"
      using spread_add [OF spread_draw [OF Cons.prems(4)], of nx ny "n - j"] True jn st2 by simp
    have fr2: "randomnessFactor s2 = ?r" "size_p s2 = size_p s"
      using st2 by (auto simp: addSandToCell_eq)
    let ?st3 = "if j > 0 then distributeJitteredSand rand nx ny j \<lceil>?r * 2\<rceil> (s2, nu2) else (s2, nu2)"
    obtain s3 nu3 where st3: "?st3 = (s3, nu3)" by (cases ?st3)
    have sp3: "spread st (k + n) (s3, nu3)"
    proof (cases "j > 0")
      case True
      from spread_distributeJitteredSand [OF sp2 j0, of rand nx ny "\<lceil>?r * 2\<rceil>"] st3 True
      show ?thesis by simp
    next
      case False
      with j0 have "j = 0" by simp
      with sp2 st3 show ?thesis by simp
    qed
    have fr3: "randomnessFactor s3 = ?r"
      using spread_frame [OF sp3] spread_frame [OF Cons.prems(4)] by simp
    have step: "distributeWithRandomness rand n (c # ns) (s, nu)
                  = distributeWithRandomness rand n ns (s3, nu3)"
      using True c st2 [unfolded j_def] st3 [unfolded j_def]
      by (simp add: Let_def split: if_splits)
    from Cons.IH [OF Cons.prems(1) _ _ sp3] fr3 Cons.prems(2,3) show ?thesis
      by (simp add: step algebra_simps)
  qed
qed

subsection \<open>A topple and a pass\<close>

lemma js_rem_nonneg: "0 \<le> a \<Longrightarrow> 0 < b \<Longrightarrow> js_rem a b = a mod b"
  by (simp add: js_rem_def)

lemma length_getNeighbors [simp]: "length (getNeighbors x y) = 4"
  by (simp add: getNeighbors_def)

lemma topple_spread:
  assumes h: "0 \<le> grid s (x, y)" and r: "0 \<le> randomnessFactor s" "randomnessFactor s \<le> 1"
  shows "\<exists>s2 nu2.
     spread (s\<lparr> grid := (grid s)((x, y) := grid s (x, y) mod 4) \<rparr>, nu)
            (4 * (grid s (x, y) div 4)) (s2, nu2)
     \<and> topple rand x y (s, nu) =
         (s2, if grid s2 (x, y) \<ge> criticalMass s2 then set_add (x, y) nu2 else nu2)"
proof -
  let ?h = "grid s (x, y)"
  let ?s1 = "s\<lparr> grid := (grid s)((x, y) := ?h mod 4) \<rparr>"
  let ?d = "if randomnessFactor ?s1 > 0
            then distributeWithRandomness rand (?h div 4) (getNeighbors x y) (?s1, nu)
            else distributeToNeighbors (?h div 4) (getNeighbors x y) (?s1, nu)"
  obtain s2 nu2 where d: "?d = (s2, nu2)" by (cases ?d)
  have n: "0 \<le> ?h div 4" using h by simp
  have "spread (?s1, nu) (0 + ?h div 4 * int (length (getNeighbors x y))) ?d"
    using spread_distributeWithRandomness [OF n _ _ spread_refl, of ?s1 nu "getNeighbors x y" rand]
          spread_distributeToNeighbors [OF n spread_refl, of ?s1 nu "getNeighbors x y"] r
    by simp
  then have sp: "spread (?s1, nu) (4 * (?h div 4)) (s2, nu2)"
    using d by (simp add: mult.commute)
  have "topple rand x y (s, nu) =
          (s2, if grid s2 (x, y) \<ge> criticalMass s2 then set_add (x, y) nu2 else nu2)"
    using d h by (auto simp: topple_def Let_def js_rem_nonneg split: if_splits)
  with sp show ?thesis by blast
qed

lemma sameFrame_refl [simp]: "sameFrame s s"
  by (simp add: sameFrame_def)

lemma sameFrame_trans: "sameFrame s s' \<Longrightarrow> sameFrame s' s'' \<Longrightarrow> sameFrame s s''"
  by (simp add: sameFrame_def)

lemma topple_inv:
  assumes v: "isValidGridPosition x y (size_p s)" and inv: "passInv s nu"
    and t: "topple rand x y (s, nu) = (s', nu')"
  shows "passInv s' nu' \<and> sameFrame s s' \<and> unstableCells s' = unstableCells s
         \<and> totalAvalanches s' = totalAvalanches s \<and> avalancheSize s' = avalancheSize s"
proof -
  let ?h = "grid s (x, y)"
  let ?s1 = "s\<lparr> grid := (grid s)((x, y) := ?h mod 4) \<rparr>"
  have h: "0 \<le> ?h" and r: "0 \<le> randomnessFactor s" "randomnessFactor s \<le> 1"
    using inv by (simp_all add: passInv_def)
  obtain s2 nu2 where sp: "spread (?s1, nu) (4 * (?h div 4)) (s2, nu2)"
    and eq: "topple rand x y (s, nu) =
               (s2, if grid s2 (x, y) \<ge> criticalMass s2 then set_add (x, y) nu2 else nu2)"
    using topple_spread [OF h r] by blast
  have s': "s' = s2" and nu': "set nu' \<subseteq> insert (x, y) (set nu2)"
    using t eq by (auto simp: set_add_def split: if_splits)
  have fr: "size_p s2 = size_p s" "criticalMass s2 = criticalMass s"
       "randomnessFactor s2 = randomnessFactor s" "unstableCells s2 = unstableCells s"
       "totalAvalanches s2 = totalAvalanches s" "avalancheSize s2 = avalancheSize s"
    using spread_frame [OF sp] by simp_all
  have tot: "totalSand s2 + exitedSand s2 = totalSand s + exitedSand s"
    using spread_total [OF sp] by simp
  have g1: "gridSum ?s1 = gridSum s - ?h + ?h mod 4"
    using v by (rule gridSum_upd)
  have g2: "gridSum s2 + exitedSand s2 = gridSum ?s1 + exitedSand ?s1 + 4 * (?h div 4)"
    using spread_mass [OF sp] by simp
  have g3: "?h = 4 * (?h div 4) + ?h mod 4" by simp
  have g4: "exitedSand ?s1 = exitedSand s" by simp
  have mass: "gridSum s2 + exitedSand s2 = gridSum s + exitedSand s"
    using g1 g2 g3 g4 by linarith
  have ex: "exitedSand s \<le> exitedSand s2"
    using spread_exited [OF sp] by simp
  have nonneg: "0 \<le> grid s2 c" for c
  proof -
    have "0 \<le> grid ?s1 c" using inv by (cases c) (auto simp: passInv_def)
    also have "\<dots> \<le> grid s2 c" using spread_mono [OF sp, of c] by simp
    finally show ?thesis .
  qed
  have "\<forall>(a, b) \<in> set nu2. isValidGridPosition a b (size_p s2)"
    using spread_nu_valid [OF sp] inv by (simp add: passInv_def)
  then have nuv: "\<forall>(a, b) \<in> set nu'. isValidGridPosition a b (size_p s2)"
    using nu' v fr(1) by auto
  show ?thesis
    using fr tot mass ex nonneg nuv r by (simp add: s' passInv_def sameFrame_def)
qed

lemma gridSum_avalancheSize [simp]: "gridSum (s\<lparr> avalancheSize := k \<rparr>) = gridSum s"
  by (simp add: gridSum_def)

lemma processCells_inv:
  "\<forall>(x, y) \<in> set cells. isValidGridPosition x y (size_p s) \<Longrightarrow> passInv s nu
   \<Longrightarrow> processCells rand cells (b, (s, nu)) = (b', (s', nu'))
   \<Longrightarrow> passInv s' nu' \<and> sameFrame s s' \<and> unstableCells s' = unstableCells s
       \<and> totalAvalanches s' = totalAvalanches s"
proof (induction cells arbitrary: b s nu)
  case Nil
  then show ?case by simp
next
  case (Cons c cells)
  obtain x y where c: "c = (x, y)" by (cases c)
  have v: "isValidGridPosition x y (size_p s)" using Cons.prems(1) c by simp
  show ?case
  proof (cases "grid s (x, y) \<ge> criticalMass s")
    case False
    then have "processCells rand cells (b, (s, nu)) = (b', (s', nu'))"
      using Cons.prems(3) c by simp
    from Cons.IH [OF _ Cons.prems(2) this] Cons.prems(1) show ?thesis by simp
  next
    case True
    obtain s1 nu1 where t: "topple rand x y (s, nu) = (s1, nu1)"
      by (cases "topple rand x y (s, nu)")
    note ti = topple_inv [OF v Cons.prems(2) t]
    let ?s1 = "s1\<lparr> avalancheSize := avalancheSize s1 + 1 \<rparr>"
    have run: "processCells rand cells (True, (?s1, nu1)) = (b', (s', nu'))"
      using Cons.prems(3) c True t by simp
    have inv1: "passInv ?s1 nu1" using ti by (simp add: passInv_def)
    have fr1: "sameFrame s ?s1" using ti by (simp add: sameFrame_def)
    have v1: "\<forall>(x, y) \<in> set cells. isValidGridPosition x y (size_p ?s1)"
      using Cons.prems(1) ti by (simp add: sameFrame_def)
    from Cons.IH [OF v1 inv1 run] have
      "passInv s' nu'" "sameFrame ?s1 s'" "unstableCells s' = unstableCells ?s1"
      "totalAvalanches s' = totalAvalanches ?s1" by simp_all
    then show ?thesis
      using ti sameFrame_trans [OF fr1] by simp
  qed
qed

subsection \<open>The calls keep the invariant\<close>

lemma gridSum_fields [simp]:
  "gridSum (s\<lparr> unstableCells := u \<rparr>) = gridSum s"
  "gridSum (s\<lparr> totalAvalanches := t \<rparr>) = gridSum s"
  "gridSum (s\<lparr> totalSand := ts \<rparr>) = gridSum s"
  "gridSum (s\<lparr> randomnessFactor := r \<rparr>) = gridSum s"
  by (simp_all add: gridSum_def)

lemma pileInv_SandPile: "pileInv (SandPile n cm)"
  by (simp add: pileInv_def SandPile_def gridSum_def)

lemma processAvalanches_inv:
  assumes inv: "pileInv s" and p: "processAvalanches rand s = (b, s')"
  shows "pileInv s' \<and> sameFrame s s'"
proof (cases "unstableCells s = []")
  case True
  with p inv show ?thesis by (simp add: processAvalanches_def)
next
  case False
  let ?s0 = "s\<lparr> avalancheSize := 0 \<rparr>"
  obtain b1 s1 nu1 where run: "processCells rand (unstableCells s) (False, (?s0, [])) = (b1, (s1, nu1))"
    by (cases "processCells rand (unstableCells s) (False, (?s0, []))") auto
  have v: "\<forall>(x, y) \<in> set (unstableCells s). isValidGridPosition x y (size_p ?s0)"
    using inv by (simp add: pileInv_def)
  have pi: "passInv ?s0 []" using inv by (simp add: pileInv_def passInv_def)
  from processCells_inv [OF v pi run]
  have i1: "passInv s1 nu1" and f1: "sameFrame ?s0 s1" by simp_all
  have s': "s' = s1\<lparr> unstableCells := nu1 \<rparr> \<or>
            s' = s1\<lparr> unstableCells := nu1, totalAvalanches := totalAvalanches s1 + 1 \<rparr>"
    using p False run by (auto simp: processAvalanches_def Let_def split: if_splits)
  have tot: "totalSand s1 = gridSum s1"
    using f1 inv by (simp add: sameFrame_def pileInv_def)
  from s' show ?thesis
    using i1 f1 tot by (auto simp: pileInv_def passInv_def sameFrame_def)
qed

lemma stabilizeLoop_stop:
  "unstableCells s = [] \<or> \<not> i < m \<Longrightarrow> stabilizeLoop rand m i s = (i, s)"
  by (subst stabilizeLoop.simps) auto

lemma stabilizeLoop_step:
  "unstableCells s \<noteq> [] \<Longrightarrow> i < m \<Longrightarrow>
     stabilizeLoop rand m i s = stabilizeLoop rand m (i + 1) (snd (processAvalanches rand s))"
  by (subst stabilizeLoop.simps) simp

lemma stabilizeLoop_inv:
  "pileInv s \<Longrightarrow> stabilizeLoop rand m i s = (i', s') \<Longrightarrow> pileInv s' \<and> sameFrame s s'"
proof (induction rand m i s rule: stabilizeLoop.induct)
  case (1 rand m i s)
  show ?case
  proof (cases "unstableCells s \<noteq> [] \<and> i < m")
    case False
    with "1.prems" show ?thesis by (simp add: stabilizeLoop_stop)
  next
    case True
    obtain b s1 where p: "processAvalanches rand s = (b, s1)"
      by (cases "processAvalanches rand s")
    note pi = processAvalanches_inv [OF "1.prems"(1) p]
    have "stabilizeLoop rand m (i + 1) (snd (processAvalanches rand s)) = (i', s')"
      using "1.prems"(2) True by (simp add: stabilizeLoop_step)
    from "1.IH" [OF True _ this] pi p show ?thesis
      by (auto intro: sameFrame_trans)
  qed
qed

lemma addSand_inv:
  assumes "0 \<le> a" "pileInv s"
  shows "pileInv (addSand x y a s) \<and> size_p (addSand x y a s) = size_p s
         \<and> criticalMass (addSand x y a s) = criticalMass s
         \<and> exitedSand (addSand x y a s) = exitedSand s
         \<and> totalSand (addSand x y a s) =
             totalSand s + (if isValidGridPosition x y (size_p s) then a else 0)"
proof (cases "isValidGridPosition x y (size_p s)")
  case False
  with assms show ?thesis by (simp add: addSand_def)
next
  case True
  let ?s1 = "s\<lparr> grid := (grid s)((x, y) := grid s (x, y) + a) \<rparr>"
  have g: "gridSum ?s1 = gridSum s + a"
    using gridSum_upd [OF True, of "grid s (x, y) + a"] by simp
  have gs: "gridSum (?s1\<lparr> totalSand := t, unstableCells := u \<rparr>) = gridSum ?s1" for t u
    by (simp add: gridSum_def)
  have gs2: "gridSum (?s1\<lparr> totalSand := t \<rparr>) = gridSum ?s1" for t
    by (simp add: gridSum_def)
  show ?thesis
    using assms True g gs gs2
    by (auto simp: addSand_def Let_def pileInv_def set_add_def)
qed

lemma setRandomnessFactor_inv:
  "pileInv s \<Longrightarrow> pileInv (setRandomnessFactor f s)"
  by (simp add: pileInv_def setRandomnessFactor_def)

lemma perform_inv:
  assumes "nonNegativeCall c" "pileInv s"
  shows "pileInv (perform rand s c) \<and> size_p (perform rand s c) = size_p s
     \<and> criticalMass (perform rand s c) = criticalMass s
     \<and> exitedSand s \<le> exitedSand (perform rand s c)
     \<and> totalSand (perform rand s c) + exitedSand (perform rand s c)
          = totalSand s + exitedSand s + injected (size_p s) [c]"
proof (cases c)
  case (AddSand x y a)
  with assms addSand_inv [of a s x y] show ?thesis by simp
next
  case ProcessAvalanches
  obtain b s' where p: "processAvalanches rand s = (b, s')" by (cases "processAvalanches rand s")
  from processAvalanches_inv [OF assms(2) p] p ProcessAvalanches show ?thesis
    by (simp add: sameFrame_def)
next
  case (Stabilize m)
  obtain i s' where p: "stabilizeLoop rand m 0 s = (i, s')" by (cases "stabilizeLoop rand m 0 s")
  from stabilizeLoop_inv [OF assms(2) p] p Stabilize show ?thesis
    by (simp add: sameFrame_def stabilize_def)
next
  case (SetRandomnessFactor f)
  with assms setRandomnessFactor_inv [of s f] show ?thesis
    by (simp add: setRandomnessFactor_def)
qed

lemma injected_append: "injected n (xs @ ys) = injected n xs + injected n ys"
  by (induction n xs rule: injected.induct) simp_all

lemma run_inv:
  "\<forall>c \<in> set calls. nonNegativeCall c \<Longrightarrow> pileInv s \<Longrightarrow>
     pileInv (run rand s calls) \<and> size_p (run rand s calls) = size_p s
     \<and> criticalMass (run rand s calls) = criticalMass s
     \<and> exitedSand s \<le> exitedSand (run rand s calls)
     \<and> totalSand (run rand s calls) + exitedSand (run rand s calls)
          = totalSand s + exitedSand s + injected (size_p s) calls"
proof (induction calls arbitrary: s)
  case Nil
  then show ?case by (simp add: run_def)
next
  case (Cons c calls)
  have c: "nonNegativeCall c" and cs: "\<forall>c \<in> set calls. nonNegativeCall c"
    using Cons.prems(1) by simp_all
  note p = perform_inv [OF c Cons.prems(2), of rand]
  have r: "run rand s (c # calls) = run rand (perform rand s c) calls"
    by (simp add: run_def)
  have i: "injected (size_p s) (c # calls) = injected (size_p s) [c] + injected (size_p s) calls"
    using injected_append [of "size_p s" "[c]" calls] by simp
  from Cons.IH [OF cs, of "perform rand s c"] p show ?case
    unfolding r i by simp
qed

subsection \<open>Every cell at or above the critical mass is marked\<close>









subsection \<open>Randomness factor 0\<close>

lemma distributeToNeighbors_rng:
  "randomnessFactor (fst (distributeToNeighbors n ns st)) = randomnessFactor (fst st)
   \<and> rngCalls (fst (distributeToNeighbors n ns st)) = rngCalls (fst st)"
proof (induction n ns st rule: distributeToNeighbors.induct)
  case (1 n st)
  show ?case by simp
next
  case (2 n nx ny ns s nu)
  then show ?case by (simp add: addSandToCell_eq loseSand_def)
qed

lemma topple_det_branch:
  "randomnessFactor s = 0 \<Longrightarrow>
     topple rand x y (s, nu) =
       (case distributeToNeighbors (grid s (x, y) div 4) (getNeighbors x y)
               (s\<lparr> grid := (grid s)((x, y) := js_rem (grid s (x, y)) 4) \<rparr>, nu) of
          (s2, nu2) \<Rightarrow>
            if grid s2 (x, y) \<ge> criticalMass s2 then (s2, set_add (x, y) nu2) else (s2, nu2))"
  by (simp add: topple_def Let_def)

lemma topple_det_rng:
  assumes "randomnessFactor s = 0"
  shows "randomnessFactor (fst (topple rand x y (s, nu))) = 0
         \<and> rngCalls (fst (topple rand x y (s, nu))) = rngCalls s"
proof -
  let ?st1 = "(s\<lparr> grid := (grid s)((x, y) := js_rem (grid s (x, y)) 4) \<rparr>, nu)"
  let ?d = "distributeToNeighbors (grid s (x, y) div 4) (getNeighbors x y) ?st1"
  obtain s2 nu2 where d: "?d = (s2, nu2)" by (cases ?d)
  have "randomnessFactor s2 = 0 \<and> rngCalls s2 = rngCalls s"
    using distributeToNeighbors_rng [of "grid s (x, y) div 4" "getNeighbors x y" ?st1] d assms
    by simp
  then show ?thesis
    using d by (simp add: topple_det_branch [OF assms])
qed

lemma processCells_det_rng:
  "randomnessFactor s = 0 \<Longrightarrow>
     randomnessFactor (fst (snd (processCells rand cells (b, (s, nu))))) = 0
     \<and> rngCalls (fst (snd (processCells rand cells (b, (s, nu))))) = rngCalls s"
proof (induction cells arbitrary: b s nu)
  case Nil
  then show ?case by simp
next
  case (Cons c cells)
  obtain x y where c: "c = (x, y)" by (cases c)
  show ?case
  proof (cases "grid s (x, y) \<ge> criticalMass s")
    case False
    with Cons c show ?thesis by simp
  next
    case True
    obtain s1 nu1 where t: "topple rand x y (s, nu) = (s1, nu1)"
      by (cases "topple rand x y (s, nu)")
    have r1: "randomnessFactor s1 = 0" "rngCalls s1 = rngCalls s"
      using topple_det_rng [OF Cons.prems, of rand x y nu] t by simp_all
    let ?s1 = "s1\<lparr> avalancheSize := avalancheSize s1 + 1 \<rparr>"
    have "randomnessFactor ?s1 = 0" using r1 by simp
    from Cons.IH [OF this, of True nu1] show ?thesis
      using c True t r1 by simp
  qed
qed

lemma processCells_det:
  "randomnessFactor s = 0 \<Longrightarrow>
     processCells rand1 cells (b, (s, nu)) = processCells rand2 cells (b, (s, nu))"
proof (induction cells arbitrary: b s nu)
  case Nil
  then show ?case by simp
next
  case (Cons c cells)
  obtain x y where c: "c = (x, y)" by (cases c)
  show ?case
  proof (cases "grid s (x, y) \<ge> criticalMass s")
    case False
    with Cons c show ?thesis by simp
  next
    case True
    obtain s1 nu1 where t: "topple rand1 x y (s, nu) = (s1, nu1)"
      by (cases "topple rand1 x y (s, nu)")
    have t2: "topple rand2 x y (s, nu) = (s1, nu1)"
      using t by (simp add: topple_det_branch [OF Cons.prems])
    have r1: "randomnessFactor s1 = 0"
      using topple_det_rng [OF Cons.prems, of rand1 x y nu] t by simp
    let ?s1 = "s1\<lparr> avalancheSize := avalancheSize s1 + 1 \<rparr>"
    have "randomnessFactor ?s1 = 0" using r1 by simp
    from Cons.IH [OF this, of True nu1] show ?thesis
      using c True t t2 by simp
  qed
qed

lemma processAvalanches_det_rng:
  assumes "randomnessFactor s = 0"
  shows "randomnessFactor (snd (processAvalanches rand s)) = 0
     \<and> rngCalls (snd (processAvalanches rand s)) = rngCalls s"
proof (cases "unstableCells s = []")
  case True
  with assms show ?thesis by (simp add: processAvalanches_def)
next
  case False
  let ?s0 = "s\<lparr> avalancheSize := 0 \<rparr>"
  have r0: "randomnessFactor ?s0 = 0" using assms by simp
  obtain b1 s1 nu1 where run: "processCells rand (unstableCells s) (False, (?s0, [])) = (b1, (s1, nu1))"
    by (cases "processCells rand (unstableCells s) (False, (?s0, []))") auto
  from processCells_det_rng [OF r0, of rand "unstableCells s" False "[]"] run
  have "randomnessFactor s1 = 0" "rngCalls s1 = rngCalls s" by simp_all
  then show ?thesis
    using run False by (simp add: processAvalanches_def Let_def)
qed

lemma processAvalanches_det:
  assumes "randomnessFactor s = 0"
  shows "processAvalanches rand1 s = processAvalanches rand2 s"
  using processCells_det [of "s\<lparr> avalancheSize := 0 \<rparr>" rand1 "unstableCells s" False "[]" rand2] assms
  by (simp add: processAvalanches_def)

lemma stabilizeLoop_det_rng:
  "randomnessFactor s = 0 \<Longrightarrow>
     randomnessFactor (snd (stabilizeLoop rand m i s)) = 0
     \<and> rngCalls (snd (stabilizeLoop rand m i s)) = rngCalls s"
proof (induction rand m i s rule: stabilizeLoop.induct)
  case (1 rand m i s)
  show ?case
  proof (cases "unstableCells s \<noteq> [] \<and> i < m")
    case False
    with "1.prems" show ?thesis by (simp add: stabilizeLoop_stop)
  next
    case True
    note pd = processAvalanches_det_rng [OF "1.prems", of rand]
    have "randomnessFactor (snd (processAvalanches rand s)) = 0" using pd by simp
    from "1.IH" [OF True this] pd True show ?thesis
      by (simp add: stabilizeLoop_step)
  qed
qed

lemma stabilizeLoop_det:
  "randomnessFactor s = 0 \<Longrightarrow> stabilizeLoop rand1 m i s = stabilizeLoop rand2 m i s"
proof (induction rand1 m i s rule: stabilizeLoop.induct)
  case (1 rand1 m i s)
  show ?case
  proof (cases "unstableCells s \<noteq> [] \<and> i < m")
    case False
    then show ?thesis by (simp add: stabilizeLoop_stop)
  next
    case True
    have pd: "processAvalanches rand1 s = processAvalanches rand2 s"
      using processAvalanches_det [OF "1.prems"] .
    have "randomnessFactor (snd (processAvalanches rand1 s)) = 0"
      using processAvalanches_det_rng [OF "1.prems"] by simp
    from "1.IH" [OF True this] True show ?thesis
      by (simp add: stabilizeLoop_step pd)
  qed
qed

lemma perform_det:
  assumes "keepsDeterministic c" "randomnessFactor s = 0"
  shows "perform rand1 s c = perform rand2 s c"
proof (cases c)
  case ProcessAvalanches
  with processAvalanches_det [OF assms(2), of rand1 rand2] show ?thesis by simp
next
  case (Stabilize m)
  with stabilizeLoop_det [OF assms(2), of rand1 m 0 rand2] show ?thesis
    by (simp add: stabilize_def)
qed simp_all

lemma perform_det_rng:
  assumes "keepsDeterministic c" "randomnessFactor s = 0"
  shows "randomnessFactor (perform rand s c) = 0 \<and> rngCalls (perform rand s c) = rngCalls s"
proof (cases c)
  case (AddSand x y a)
  with assms show ?thesis by (simp add: addSand_def Let_def)
next
  case ProcessAvalanches
  with processAvalanches_det_rng [OF assms(2), of rand] show ?thesis by simp
next
  case (Stabilize m)
  with stabilizeLoop_det_rng [OF assms(2), of rand m 0] show ?thesis
    by (simp add: stabilize_def)
next
  case (SetRandomnessFactor f)
  with assms show ?thesis by (simp add: setRandomnessFactor_def)
qed

lemma run_det_rng:
  "\<forall>c \<in> set calls. keepsDeterministic c \<Longrightarrow> randomnessFactor s = 0 \<Longrightarrow>
     randomnessFactor (run rand s calls) = 0 \<and> rngCalls (run rand s calls) = rngCalls s"
proof (induction calls arbitrary: s)
  case Nil
  then show ?case by (simp add: run_def)
next
  case (Cons c calls)
  have c: "keepsDeterministic c" and cs: "\<forall>c \<in> set calls. keepsDeterministic c"
    using Cons.prems(1) by simp_all
  note p = perform_det_rng [OF c Cons.prems(2), of rand]
  have r: "run rand s (c # calls) = run rand (perform rand s c) calls"
    by (simp add: run_def)
  from Cons.IH [OF cs, of "perform rand s c"] p show ?case
    unfolding r by simp
qed

lemma run_det:
  "\<forall>c \<in> set calls. keepsDeterministic c \<Longrightarrow> randomnessFactor s = 0 \<Longrightarrow>
     run rand1 s calls = run rand2 s calls"
proof (induction calls arbitrary: s)
  case Nil
  then show ?case by (simp add: run_def)
next
  case (Cons c calls)
  have c: "keepsDeterministic c" and cs: "\<forall>c \<in> set calls. keepsDeterministic c"
    using Cons.prems(1) by simp_all
  have p: "perform rand1 s c = perform rand2 s c"
    using perform_det [OF c Cons.prems(2)] .
  have p0: "randomnessFactor (perform rand1 s c) = 0"
    using perform_det_rng [OF c Cons.prems(2)] by simp
  have r: "run rand s (c # calls) = run rand (perform rand s c) calls" for rand
    by (simp add: run_def)
  from Cons.IH [OF cs p0] show ?case
    unfolding r p by simp
qed

subsection \<open>The loop of stabilize, and the deterministic distribution\<close>

lemma stabilizeLoop_stable:
  "stabilizeLoop rand m i s = (i', s') \<Longrightarrow> i' < m \<Longrightarrow> unstableCells s' = []"
proof (induction rand m i s rule: stabilizeLoop.induct)
  case (1 rand m i s)
  show ?case
  proof (cases "unstableCells s \<noteq> [] \<and> i < m")
    case False
    with "1.prems" show ?thesis by (auto simp: stabilizeLoop_stop)
  next
    case True
    then have "stabilizeLoop rand m (i + 1) (snd (processAvalanches rand s)) = (i', s')"
      using "1.prems"(1) by (simp add: stabilizeLoop_step)
    from "1.IH" [OF True this "1.prems"(2)] show ?thesis .
  qed
qed

lemma stabilizeLoop_stuck:
  assumes step: "\<And>k. processAvalanches rand (S k) = (True, S (Suc k))"
    and ne: "\<And>k. unstableCells (S k) \<noteq> []"
  shows "i \<le> m \<Longrightarrow> stabilizeLoop rand m i (S k) = (m, S (k + nat (m - i)))"
proof (induction "nat (m - i)" arbitrary: i k)
  case 0
  then have "i = m" by simp
  then show ?case by (simp add: stabilizeLoop_stop)
next
  case (Suc d)
  then have lt: "i < m" and d: "d = nat (m - (i + 1))" and le: "i + 1 \<le> m" by simp_all
  have "stabilizeLoop rand m i (S k) = stabilizeLoop rand m (i + 1) (S (Suc k))"
    using ne lt by (simp add: stabilizeLoop_step step)
  also have "\<dots> = (m, S (Suc k + nat (m - (i + 1))))"
    using Suc.hyps(1) [OF d le] .
  also have "Suc k + nat (m - (i + 1)) = k + nat (m - i)"
    using lt by simp
  finally show ?case .
qed

lemma stuckPile_step: "processAvalanches rand (stuckPile k) = (True, stuckPile (Suc k))"
  by (simp add: processAvalanches_def stuckPile_def topple_def getNeighbors_def
        isValidGridPosition_def addSandToCell_eq js_rem_def set_add_def Let_def fun_eq_iff)

lemma stuckPile_first:
  "processAvalanches rand (addSand 4 4 3 (SandPile 8 3)) = (True, stuckPile 1)"
  by (simp add: processAvalanches_def stuckPile_def topple_def getNeighbors_def addSand_def SandPile_def
        isValidGridPosition_def addSandToCell_eq js_rem_def set_add_def Let_def fun_eq_iff)

lemma grid_distributeToNeighbors:
  "distinct ns \<Longrightarrow>
     grid (fst (distributeToNeighbors n ns (s, nu))) c =
       (if c \<in> set ns \<and> isValidGridPosition (fst c) (snd c) (size_p s) then grid s c + n
        else grid s c)
     \<and> size_p (fst (distributeToNeighbors n ns (s, nu))) = size_p s"
proof (induction ns arbitrary: s nu)
  case Nil
  then show ?case by simp
next
  case (Cons d ns)
  obtain nx ny where d: "d = (nx, ny)" by (cases d)
  have dn: "d \<notin> set ns" "distinct ns" using Cons.prems by simp_all
  show ?case
  proof (cases "isValidGridPosition nx ny (size_p s)")
    case True
    obtain s1 nu1 where st1: "addSandToCell nx ny n (s, nu) = (s1, nu1)"
      by (cases "addSandToCell nx ny n (s, nu)")
    then have s1: "grid s1 = (grid s)((nx, ny) := grid s (nx, ny) + n)" "size_p s1 = size_p s"
      by (auto simp: addSandToCell_eq)
    from Cons.IH [OF dn(2), of s1 nu1] show ?thesis
      using True d dn(1) st1 s1 by auto
  next
    case False
    from Cons.IH [OF dn(2), of "loseSand n s" nu] show ?thesis
      using False d dn(1) by auto
  qed
qed

subsection \<open>Evaluation of concrete piles\<close>

lemmas pile_eval =
  run_def addSand_def SandPile_def processAvalanches_def topple_det_branch addSandToCell_eq
  loseSand_def getNeighbors_def isValidGridPosition_def set_add_def js_rem_def getSand_def
  isStable_def stabilize_default_def stabilize_def stabilizeLoop_step stabilizeLoop_stop
  getMaxHeight_def gridCells_def upto.simps Let_def

subsection \<open>The circular buffer\<close>

lemma js_rem_pos: "0 \<le> a \<Longrightarrow> 0 < b \<Longrightarrow> js_rem a b = a mod b"
  by (simp add: js_rem_def)

lemma addSamples_snoc: "addSamples (xs @ [x]) d = addSample x (addSamples xs d)"
  by (simp add: addSamples_def)

lemma fillLoop_Suc:
  "0 \<le> m \<Longrightarrow> fillLoop (m + 1) f r = f32_set (fillLoop m f r) m (f m)"
proof -
  assume "0 \<le> m"
  then have "[0 .. m + 1 - 1] = [0 .. m - 1] @ [m]"
    using upto_rec2 [of 0 m] by simp
  then show ?thesis by (simp add: fillLoop_def)
qed

lemma fillLoop_eq:
  "m \<le> length r \<Longrightarrow>
     fillLoop (int m) f r = map (\<lambda>i. f (int i)) [0 ..< m] @ drop m r"
proof (induction m)
  case 0
  then show ?case by (simp add: fillLoop_def)
next
  case (Suc m)
  then have m: "m < length r" and le: "m \<le> length r" by simp_all
  have "fillLoop (int (Suc m)) f r = f32_set (fillLoop (int m) f r) (int m) (f (int m))"
    using fillLoop_Suc [of "int m" f r] by (simp add: add.commute)
  also have "\<dots> = (map (\<lambda>i. f (int i)) [0 ..< m] @ drop m r)[m := f (int m)]"
    using Suc.IH [OF le] m by (simp add: f32_set_def)
  also have "\<dots> = map (\<lambda>i. f (int i)) [0 ..< m] @ (drop m r)[0 := f (int m)]"
    by (simp add: list_update_append)
  also have "(drop m r)[0 := f (int m)] = f (int m) # drop (Suc m) r"
    using m by (simp add: Cons_nth_drop_Suc [symmetric])
  finally show ?case by simp
qed

lemma bufferInv_init: "0 < n \<Longrightarrow> bufferInv n [] (SeismographData (int n))"
  by (simp add: bufferInv_def SeismographData_def new_Float32Array_def)

lemma mod_distinct:
  assumes "k < (m::nat)" "m - k < n"
  shows "k mod n \<noteq> m mod n"
proof
  assume e: "k mod n = m mod n"
  have "(m - k) mod n = 0"
    using e assms(1) by (metis less_imp_le_nat mod_eq_dvd_iff_nat mod_0_imp_dvd dvd_imp_mod_0)
  moreover have "(m - k) mod n = m - k" using assms(2) by simp
  ultimately show False using assms(1) by simp
qed

lemma bufferInv_addSample:
  assumes n: "0 < n" and inv: "bufferInv n xs d"
  shows "bufferInv n (xs @ [x]) (addSample x d)"
proof -
  let ?len = "length xs"
  let ?idx = "?len mod n"
  have bs: "bufferSize d = int n" and bl: "length (signalBuffer d) = n"
    and bi: "bufferIndex d = int ?idx" and bf: "bufferFull d \<longleftrightarrow> n \<le> ?len"
    and bc: "\<forall>k < ?len. ?len - k \<le> n \<longrightarrow> signalBuffer d ! (k mod n) = xs ! k"
    using inv by (simp_all add: bufferInv_def)
  have idx: "?idx < n" using n by simp
  let ?buf = "(signalBuffer d)[?idx := x]"
  have set: "f32_set (signalBuffer d) (bufferIndex d) x = ?buf"
    using idx bl bi by (simp add: f32_set_def)
  have next_idx: "js_rem (bufferIndex d + 1) (bufferSize d) = int (Suc ?len mod n)"
  proof -
    have "js_rem (bufferIndex d + 1) (bufferSize d) = (int ?idx + 1) mod int n"
      using bi bs n by (simp add: js_rem_pos)
    also have "\<dots> = int (Suc ?idx mod n)"
      by (simp add: zmod_int add.commute)
    also have "Suc ?idx mod n = Suc ?len mod n"
      by (simp add: mod_Suc_eq)
    finally show ?thesis .
  qed
  have full: "(bufferFull d \<or> Suc ?len mod n = 0) \<longleftrightarrow> n \<le> Suc ?len"
  proof (cases "n \<le> ?len")
    case True
    with bf show ?thesis by simp
  next
    case False
    then have "Suc ?len \<le> n" by simp
    then have "Suc ?len mod n = 0 \<longleftrightarrow> Suc ?len = n"
      by (cases "Suc ?len = n") simp_all
    with False bf show ?thesis by auto
  qed
  have content: "?buf ! (k mod n) = (xs @ [x]) ! k"
    if k: "k < Suc ?len" "Suc ?len - k \<le> n" for k
  proof (cases "k = ?len")
    case True
    with idx bl show ?thesis by simp
  next
    case False
    with k have lt: "k < ?len" and d: "?len - k < n" "?len - k \<le> n" by simp_all
    have "k mod n \<noteq> ?idx" using mod_distinct [OF lt d(1)] .
    then have "?buf ! (k mod n) = signalBuffer d ! (k mod n)" by simp
    also have "\<dots> = xs ! k" using bc lt d(2) by simp
    finally show ?thesis using lt by (simp add: nth_append)
  qed
  have d': "addSample x d =
      (if Suc ?len mod n = 0
       then d\<lparr> signalBuffer := ?buf, bufferIndex := int (Suc ?len mod n), bufferFull := True \<rparr>
       else d\<lparr> signalBuffer := ?buf, bufferIndex := int (Suc ?len mod n) \<rparr>)"
    using set next_idx by (simp add: addSample_def Let_def)
  show ?thesis
    using bs bl full content d' by (auto simp: bufferInv_def)
qed

lemma bufferInv_addSamples:
  "0 < n \<Longrightarrow> bufferInv n xs (addSamples xs (SeismographData (int n)))"
proof (induction xs rule: rev_induct)
  case Nil
  then show ?case by (simp add: addSamples_def bufferInv_init)
next
  case (snoc x xs)
  then show ?case by (simp add: addSamples_snoc bufferInv_addSample)
qed

subsection \<open>What getSignalData reads\<close>

lemma available_eq:
  "bufferInv n xs d \<Longrightarrow> getAvailableDataLength d = int (min (length xs) n)"
  by (auto simp: bufferInv_def getAvailableDataLength_def min_def)

lemma recent_core:
  assumes n: "0 < n" and inv: "bufferInv n xs d" and l: "l \<le> min (length xs) n"
    and arg: "(case arg of None \<Rightarrow> getAvailableDataLength d
               | Some l' \<Rightarrow> if l' = 0 then getAvailableDataLength d else l') = int l"
  shows "getSignalData arg d = Inr (drop (length xs - l) xs)"
proof -
  let ?len = "length xs"
  let ?buf = "signalBuffer d"
  have bs: "bufferSize d = int n" and bl: "length ?buf = n"
    and bi: "bufferIndex d = int (?len mod n)" and bf: "bufferFull d \<longleftrightarrow> n \<le> ?len"
    and bc: "\<forall>k < ?len. ?len - k \<le> n \<longrightarrow> ?buf ! (k mod n) = xs ! k"
    using inv by (simp_all add: bufferInv_def)
  have second: "\<not> (\<not> bufferFull d \<and> bufferIndex d < int l)"
  proof
    assume a: "\<not> bufferFull d \<and> bufferIndex d < int l"
    then have "?len < n" using bf by simp
    then have "bufferIndex d = int ?len" using bi by simp
    with a l show False by simp
  qed
  let ?g = "\<lambda>i. f32_get ?buf (js_rem (bufferIndex d - int l + i + bufferSize d) (bufferSize d))"
  have g: "?g (int i) = xs ! (?len - l + i)" if i: "i < l" for i
  proof -
    let ?k = "?len - l + i"
    from l have l1: "l \<le> ?len" "l \<le> n" by simp_all
    have k: "?k < ?len" "?len - ?k \<le> n" using i l1 by linarith+
    have e0: "0 \<le> int (?len mod n) - int l + int i + int n" using l by simp
    have "js_rem (bufferIndex d - int l + int i + bufferSize d) (bufferSize d)
            = (int (?len mod n) - int l + int i + int n) mod int n"
      using bi bs e0 n by (simp add: js_rem_pos)
    also have "\<dots> = (int ?len mod int n - int l + int i) mod int n"
      by (simp add: zmod_int)
    also have "\<dots> = ((int ?len mod int n - int l) mod int n + int i) mod int n"
      by (simp add: mod_add_left_eq)
    also have "\<dots> = ((int ?len - int l) mod int n + int i) mod int n"
      by (simp add: mod_diff_left_eq)
    also have "\<dots> = (int ?len - int l + int i) mod int n"
      by (simp add: mod_add_left_eq)
    also have "int ?len - int l + int i = int ?k" using l by simp
    also have "int ?k mod int n = int (?k mod n)" by (simp add: zmod_int)
    finally have p: "js_rem (bufferIndex d - int l + int i + bufferSize d) (bufferSize d)
                       = int (?k mod n)" .
    have "?k mod n < n" using n by simp
    then have "?g (int i) = ?buf ! (?k mod n)"
      using p bl by (simp add: f32_get_def)
    also have "\<dots> = xs ! ?k" using bc k by simp
    finally show ?thesis .
  qed
  have "fillLoop (int l) ?g (new_Float32Array (int l))
          = map (\<lambda>i. ?g (int i)) [0 ..< l] @ drop l (new_Float32Array (int l))"
    by (rule fillLoop_eq) (simp add: new_Float32Array_def)
  also have "\<dots> = map (\<lambda>i. ?g (int i)) [0 ..< l]"
    by (simp add: new_Float32Array_def)
  also have "\<dots> = drop (?len - l) xs"
  proof (rule nth_equalityI)
    show "length (map (\<lambda>i. ?g (int i)) [0 ..< l]) = length (drop (?len - l) xs)"
      using l by simp
  next
    fix i assume "i < length (map (\<lambda>i. ?g (int i)) [0 ..< l])"
    then have i: "i < l" by simp
    then show "map (\<lambda>i. ?g (int i)) [0 ..< l] ! i = drop (?len - l) xs ! i"
      using g [OF i] l by simp
  qed
  finally have fill: "fillLoop (int l) ?g (new_Float32Array (int l)) = drop (?len - l) xs" .
  show ?thesis
    using arg second fill by (auto simp: getSignalData_def Let_def)
qed

lemma padded_core:
  assumes n: "0 < n" and inv: "bufferInv n xs d" and len: "length xs < n" "length xs < l"
  shows "getSignalData (Some (int l)) d = Inr (xs @ replicate (l - length xs) (Sample 0))"
proof -
  let ?len = "length xs"
  let ?buf = "signalBuffer d"
  have bl: "length ?buf = n"
    and bi: "bufferIndex d = int ?len" and bf: "\<not> bufferFull d"
    and bc: "\<forall>k < ?len. ?len - k \<le> n \<longrightarrow> ?buf ! (k mod n) = xs ! k"
    using inv len by (simp_all add: bufferInv_def)
  have g: "f32_get ?buf (int i) = xs ! i" if "i < ?len" for i
    using that bc len bl by (simp add: f32_get_def)
  have "fillLoop (int ?len) (f32_get ?buf) (new_Float32Array (int l))
          = map (\<lambda>i. f32_get ?buf (int i)) [0 ..< ?len] @ drop ?len (new_Float32Array (int l))"
    by (rule fillLoop_eq) (use len in \<open>simp add: new_Float32Array_def\<close>)
  also have "map (\<lambda>i. f32_get ?buf (int i)) [0 ..< ?len] = xs"
    by (rule nth_equalityI) (simp_all add: g)
  also have "drop ?len (new_Float32Array (int l)) = replicate (l - ?len) (Sample 0)"
    by (simp add: new_Float32Array_def)
  finally have fill: "fillLoop (int ?len) (f32_get ?buf) (new_Float32Array (int l))
                        = xs @ replicate (l - ?len) (Sample 0)" .
  have "int l \<noteq> 0" using len by simp
  then show ?thesis
    using bf bi len fill by (simp add: getSignalData_def Let_def)
qed

subsection \<open>What the distribution drops\<close>

lemma ledger_addSandToCell [simp]: "ledger (fst (addSandToCell x y a st)) = ledger (fst st)"
  by (cases st) (simp add: addSandToCell_eq ledger_def)

lemma ledger_jitterLoop:
  "ledger (fst (snd (jitterLoop cands tw tj rem st))) = ledger (fst st)"
proof (induction cands arbitrary: rem st)
  case Nil
  show ?case by simp
next
  case (Cons cw cands)
  obtain cx cy w where cw: "cw = ((cx, cy), w)" by (cases cw) auto
  show ?case
    using Cons.IH [of rem st]
          Cons.IH [of "rem - min rem \<lfloor>of_int tj * (w / tw)\<rfloor>"
                      "addSandToCell cx cy (min rem \<lfloor>of_int tj * (w / tw)\<rfloor>) st"]
    by (simp add: cw Let_def)
qed

lemma ledger_distributeJitteredSand:
  assumes "jitterCandidates cx cy radius (size_p s) \<noteq> []"
  shows "ledger (fst (distributeJitteredSand rand cx cy tj radius (s, nu))) = ledger s"
proof -
  let ?cands = "jitterCandidates cx cy radius (size_p s)"
  let ?tw = "foldl (\<lambda>sum candidate. sum + snd candidate) 0 ?cands"
  obtain rem' s1 nu1 where run: "jitterLoop ?cands ?tw tj tj (s, nu) = (rem', (s1, nu1))"
    by (cases "jitterLoop ?cands ?tw tj tj (s, nu)") auto
  have l1: "ledger s1 = ledger s"
    using ledger_jitterLoop [of ?cands ?tw tj tj "(s, nu)"] run by simp
  then have "ledger (s1\<lparr> rngCalls := rngCalls s1 + 1 \<rparr>) = ledger s"
    by (simp add: ledger_def)
  then have l2: "ledger (fst (addSandToCell a b c (s1\<lparr> rngCalls := rngCalls s1 + 1 \<rparr>, nu1))) = ledger s"
    for a b c by simp
  show ?thesis
    using assms run l1 l2 by (simp add: distributeJitteredSand_def Let_def)
qed

lemma in_concat_map: "a \<in> set xs \<Longrightarrow> e \<in> set (f a) \<Longrightarrow> e \<in> set (concat (map f xs))"
  by auto

lemma jitterCandidates_nonempty:
  assumes v: "isValidGridPosition x y n" and nb: "(nx, ny) \<in> set (getNeighbors x y)"
    and r: "1 \<le> radius"
  shows "jitterCandidates nx ny radius n \<noteq> []"
proof -
  let ?dx = "x - nx" and ?dy = "y - ny"
  have d: "(?dx = 1 \<and> ?dy = 0) \<or> (?dx = - 1 \<and> ?dy = 0) \<or> (?dx = 0 \<and> ?dy = 1) \<or> (?dx = 0 \<and> ?dy = - 1)"
    using nb by (auto simp: getNeighbors_def)
  then have one: "?dx * ?dx + ?dy * ?dy = 1" by auto
  have range: "?dx \<in> set [- radius .. radius]" "?dy \<in> set [- radius .. radius]"
    using d r by auto
  have nz: "\<not> (?dx = 0 \<and> ?dy = 0)" using d by auto
  have inner: "((x, y), 1 / (1 + sqrt (of_int (?dx * ?dx + ?dy * ?dy))))
      \<in> set (concat (map (\<lambda>dy.
        if ?dx = 0 \<and> dy = 0 then []
        else if isValidGridPosition (nx + ?dx) (ny + dy) n
                \<and> sqrt (of_int (?dx * ?dx + dy * dy)) \<le> of_int radius
        then [((nx + ?dx, ny + dy), 1 / (1 + sqrt (of_int (?dx * ?dx + dy * dy))))]
        else []) [- radius .. radius]))"
  proof -
    have "sqrt (of_int (?dx * ?dx + ?dy * ?dy)) \<le> of_int radius"
      using one r by simp
    then have "((x, y), 1 / (1 + sqrt (of_int (?dx * ?dx + ?dy * ?dy))))
      \<in> set (if ?dx = 0 \<and> ?dy = 0 then []
        else if isValidGridPosition (nx + ?dx) (ny + ?dy) n
                \<and> sqrt (of_int (?dx * ?dx + ?dy * ?dy)) \<le> of_int radius
        then [((nx + ?dx, ny + ?dy), 1 / (1 + sqrt (of_int (?dx * ?dx + ?dy * ?dy))))]
        else [])"
      using nz v by simp
    then show ?thesis by (rule in_concat_map [OF range(2)])
  qed
  have "((x, y), 1 / (1 + sqrt (of_int (?dx * ?dx + ?dy * ?dy))))
      \<in> set (jitterCandidates nx ny radius n)"
    unfolding jitterCandidates_def
    using inner by (rule in_concat_map [OF range(1)])
  then show ?thesis by auto
qed

lemma offGridCount_Cons:
  "offGridCount n ((nx, ny) # ns) =
     (if isValidGridPosition nx ny n then 0 else 1) + offGridCount n ns"
  by (simp add: offGridCount_def)

lemma ledger_distributeToNeighbors:
  "ledger (fst (distributeToNeighbors k ns (s, nu))) =
     (size_p s, randomnessFactor s, totalSand s - k * offGridCount (size_p s) ns,
      exitedSand s + k * offGridCount (size_p s) ns)"
proof (induction ns arbitrary: s nu)
  case Nil
  show ?case by (simp add: ledger_def offGridCount_def)
next
  case (Cons c ns)
  obtain nx ny where c: "c = (nx, ny)" by (cases c)
  show ?case
  proof (cases "isValidGridPosition nx ny (size_p s)")
    case True
    obtain s1 nu1 where st1: "addSandToCell nx ny k (s, nu) = (s1, nu1)"
      by (cases "addSandToCell nx ny k (s, nu)")
    have "ledger s1 = ledger (fst (addSandToCell nx ny k (s, nu)))"
      by (simp only: st1 fst_conv)
    then have "ledger s1 = ledger s" by simp
    then have l: "size_p s1 = size_p s" "randomnessFactor s1 = randomnessFactor s"
      "totalSand s1 = totalSand s" "exitedSand s1 = exitedSand s"
      by (simp_all add: ledger_def)
    from Cons.IH [of s1 nu1] show ?thesis
      using True c st1 l by (simp add: offGridCount_Cons)
  next
    case False
    from Cons.IH [of "loseSand k s" nu] show ?thesis
      using False c by (simp add: offGridCount_Cons algebra_simps)
  qed
qed

lemma ledger_distributeWithRandomness:
  "\<forall>(nx, ny) \<in> set ns. isValidGridPosition nx ny (size_p s)
       \<longrightarrow> jitterCandidates nx ny \<lceil>randomnessFactor s * 2\<rceil> (size_p s) \<noteq> []
   \<Longrightarrow> ledger (fst (distributeWithRandomness rand k ns (s, nu))) =
     (size_p s, randomnessFactor s, totalSand s - k * offGridCount (size_p s) ns,
      exitedSand s + k * offGridCount (size_p s) ns)"
proof (induction ns arbitrary: s nu)
  case Nil
  show ?case by (simp add: ledger_def offGridCount_def)
next
  case (Cons c ns)
  obtain nx ny where c: "c = (nx, ny)" by (cases c)
  have rest: "\<forall>(nx, ny) \<in> set ns. isValidGridPosition nx ny (size_p s)
       \<longrightarrow> jitterCandidates nx ny \<lceil>randomnessFactor s * 2\<rceil> (size_p s) \<noteq> []"
    using Cons.prems by simp
  show ?case
  proof (cases "isValidGridPosition nx ny (size_p s)")
    case False
    have "\<forall>(nx, ny) \<in> set ns. isValidGridPosition nx ny (size_p (loseSand k s))
       \<longrightarrow> jitterCandidates nx ny \<lceil>randomnessFactor (loseSand k s) * 2\<rceil> (size_p (loseSand k s)) \<noteq> []"
      using rest by simp
    from Cons.IH [OF this, of nu] show ?thesis
      using False c by (simp add: offGridCount_Cons algebra_simps)
  next
    case True
    let ?r = "randomnessFactor s"
    let ?u = "Math_random rand (rngCalls s)"
    let ?s1 = "s\<lparr> rngCalls := rngCalls s + 1 \<rparr>"
    let ?j = "\<lfloor>of_int k * ?r * ?u\<rfloor>"
    have cand: "jitterCandidates nx ny \<lceil>?r * 2\<rceil> (size_p s) \<noteq> []"
      using Cons.prems True c by simp
    obtain s2 nu2 where st2: "addSandToCell nx ny (k - ?j) (?s1, nu) = (s2, nu2)"
      by (cases "addSandToCell nx ny (k - ?j) (?s1, nu)")
    have "ledger s2 = ledger (fst (addSandToCell nx ny (k - ?j) (?s1, nu)))"
      by (simp only: st2 fst_conv)
    also have "\<dots> = ledger ?s1" by simp
    also have "\<dots> = ledger s" by (simp add: ledger_def)
    finally have l2: "ledger s2 = ledger s" .
    then have sz2: "size_p s2 = size_p s" by (simp add: ledger_def)
    let ?st3 = "if ?j > 0 then distributeJitteredSand rand nx ny ?j \<lceil>?r * 2\<rceil> (s2, nu2) else (s2, nu2)"
    obtain s3 nu3 where st3: "?st3 = (s3, nu3)" by (cases ?st3)
    have l3: "ledger s3 = ledger s"
    proof (cases "?j > 0")
      case True
      have "jitterCandidates nx ny \<lceil>?r * 2\<rceil> (size_p s2) \<noteq> []" using cand sz2 by simp
      from ledger_distributeJitteredSand [OF this, of rand ?j nu2] st3 True l2
      show ?thesis by simp
    next
      case False
      with st3 l2 show ?thesis by simp
    qed
    then have l: "size_p s3 = size_p s" "randomnessFactor s3 = randomnessFactor s"
      "totalSand s3 = totalSand s" "exitedSand s3 = exitedSand s"
      by (simp_all add: ledger_def)
    have step: "distributeWithRandomness rand k (c # ns) (s, nu)
                  = distributeWithRandomness rand k ns (s3, nu3)"
      using True c st2 st3 by (simp add: Let_def split: if_splits)
    have "\<forall>(nx, ny) \<in> set ns. isValidGridPosition nx ny (size_p s3)
       \<longrightarrow> jitterCandidates nx ny \<lceil>randomnessFactor s3 * 2\<rceil> (size_p s3) \<noteq> []"
      using rest l by simp
    from Cons.IH [OF this, of nu3] show ?thesis
      unfolding step using True c l by (simp add: offGridCount_Cons)
  qed
qed

subsection \<open>Bounds of the loop of stabilize\<close>

lemma stabilizeLoop_bounds:
  "i \<le> fst (stabilizeLoop rand m i s) \<and> fst (stabilizeLoop rand m i s) \<le> max i m"
proof (induction rand m i s rule: stabilizeLoop.induct)
  case (1 rand m i s)
  show ?case
  proof (cases "unstableCells s \<noteq> [] \<and> i < m")
    case False
    then show ?thesis by (simp add: stabilizeLoop_stop)
  next
    case True
    from "1.IH" [OF True] True show ?thesis
      by (simp add: stabilizeLoop_step)
  qed
qed

lemma updateSourcesLoop_fields:
  "frameCount (updateSources dt sim) = frameCount sim
   \<and> simulationTime (updateSources dt sim) = simulationTime sim
   \<and> lastUpdateTime (updateSources dt sim) = lastUpdateTime sim
   \<and> paused (updateSources dt sim) = paused sim"
  by (simp add: updateSources_def split: prod.splits)

section \<open>The claims\<close>

subsection \<open>C1: what getSignalData returns\<close>

text \<open>
  C1 says that \<^verbatim>\<open>getSignalData(length)\<close> returns the most recent
  \<open>min(length, available)\<close> samples, oldest first, and only the samples that exist when
  fewer than \<open>length\<close> exist. The code allocates the result with the requested length
  before it looks at the buffer. With a buffer of 4 and six samples 1, ..., 6 pushed, a
  request for 10 returns ten entries: the index \<open>(bufferIndex - 10 + i + 4) % 4\<close> is
  negative for \<open>i = 1, 2, 3\<close>, the read gives \<^verbatim>\<open>undefined\<close> and the store \<^verbatim>\<open>NaN\<close>, and the
  other entries run through the buffer more than once. A request for 4 returns the four
  most recent samples in order, as the claim says. Before the buffer has wrapped (two
  samples pushed), a request for 4 returns the two samples followed by two zeros.
\<close>

theorem getSignalData_overlong_request:
  "getSignalData (Some 10)
     (addSamples [Sample 1, Sample 2, Sample 3, Sample 4, Sample 5, Sample 6] (SeismographData 4))
     = Inr [Sample 5, NaN, NaN, NaN, Sample 5, Sample 6, Sample 3, Sample 4, Sample 5, Sample 6]
   \<and> getSignalData (Some 4)
     (addSamples [Sample 1, Sample 2, Sample 3, Sample 4, Sample 5, Sample 6] (SeismographData 4))
     = Inr [Sample 3, Sample 4, Sample 5, Sample 6]
   \<and> getSignalData (Some 4) (addSamples [Sample 1, Sample 2] (SeismographData 4))
     = Inr [Sample 1, Sample 2, Sample 0, Sample 0]"
  by code_simp

subsection \<open>C2: conservation\<close>

text \<open>
  C2: starting from the all-zero grid, for every sequence of calls in which the amounts
  added are non-negative (\<^verbatim>\<open>addSand\<close>, relaxation passes, \<^verbatim>\<open>stabilize\<close> and changes of the
  randomness factor, in any order, with any oracle for the random draws, for every grid
  size and critical mass), the running total \<^verbatim>\<open>totalSand\<close> equals the sum of all heights,
  and equals what was added minus what the code dropped at the boundary or for lack of
  jitter candidates, which is never negative (the last section shows what a topple
  drops). When nothing was dropped up to and including a final \<^verbatim>\<open>stabilize()\<close>, the sum of
  all heights after it equals the sum of the amounts added. An \<^verbatim>\<open>addSand\<close> at coordinates
  off the grid adds nothing (C6) and counts for nothing in that sum.
\<close>

theorem interior_conservation:
  assumes "\<forall>c \<in> set calls. nonNegativeCall c"
  shows "totalSand (run rand (SandPile n cm) calls) = gridSum (run rand (SandPile n cm) calls)
     \<and> totalSand (run rand (SandPile n cm) calls)
          = injected n calls - exitedSand (run rand (SandPile n cm) calls)
     \<and> 0 \<le> exitedSand (run rand (SandPile n cm) calls)
     \<and> (exitedSand (snd (stabilize_default rand (run rand (SandPile n cm) calls))) = 0
          \<longrightarrow> gridSum (snd (stabilize_default rand (run rand (SandPile n cm) calls)))
                = injected n calls)"
proof -
  let ?s = "run rand (SandPile n cm) calls"
  let ?s' = "snd (stabilize_default rand ?s)"
  note ri = run_inv [OF assms pileInv_SandPile [of n cm], of rand]
  have a: "totalSand ?s = gridSum ?s" using ri by (simp add: pileInv_def)
  have b: "totalSand ?s + exitedSand ?s = injected n calls" "0 \<le> exitedSand ?s"
    using ri by (simp_all add: SandPile_def)
  have all: "\<forall>c \<in> set (calls @ [Stabilize 1000]). nonNegativeCall c"
    using assms by simp
  have r': "run rand (SandPile n cm) (calls @ [Stabilize 1000]) = ?s'"
    by (simp add: run_def stabilize_default_def)
  note ri' = run_inv [OF all pileInv_SandPile [of n cm], of rand]
  have a': "totalSand ?s' = gridSum ?s'"
    using ri' unfolding r' by (simp add: pileInv_def)
  have b': "totalSand ?s' + exitedSand ?s' = injected n calls"
    using ri' unfolding r' by (simp add: SandPile_def injected_append)
  show ?thesis using a b a' b' by auto
qed

theorem interior_conservation_witness:
  "list_all nonNegativeCall [AddSand 1 1 4, AddSand 5 5 2]
   \<and> exitedSand (snd (stabilize_default zeroOracle
        (run zeroOracle (SandPile 3 4) [AddSand 1 1 4, AddSand 5 5 2]))) = 0
   \<and> gridSum (snd (stabilize_default zeroOracle
        (run zeroOracle (SandPile 3 4) [AddSand 1 1 4, AddSand 5 5 2]))) = 4
   \<and> totalSand (run zeroOracle (SandPile 3 4) [AddSand 1 1 4, AddSand 5 5 2]) = 4"
proof -
  let ?calls = "[AddSand 1 1 4, AddSand 5 5 2]"
  have h: "\<forall>c \<in> set ?calls. nonNegativeCall c" by simp
  have e: "exitedSand (snd (stabilize_default zeroOracle (run zeroOracle (SandPile 3 4) ?calls))) = 0"
    by (simp add: pile_eval)
  have e0: "exitedSand (run zeroOracle (SandPile 3 4) ?calls) = 0"
    by (simp add: pile_eval)
  have i: "injected 3 ?calls = 4" by (simp add: isValidGridPosition_def)
  from interior_conservation [OF h, of zeroOracle 3 4] e e0 i show ?thesis by simp
qed

subsection \<open>C3: determinism at randomness 0\<close>

text \<open>
  C3: a pile fresh from the constructor has randomness factor 0. After any sequence of
  calls that never sets a positive factor, under any two oracles for the random draws,
  the two piles are equal in every field (so their grids are equal cell for cell), they
  are still equal after \<^verbatim>\<open>stabilize()\<close>, and no random number has been drawn. At factor 0 a
  topple is exactly the deterministic distribution to the four neighbours followed by the
  check of the toppled cell.
\<close>

theorem determinism_at_zero_randomness:
  "((\<forall>c \<in> set calls. keepsDeterministic c) \<longrightarrow>
      run rand1 (SandPile n cm) calls = run rand2 (SandPile n cm) calls
      \<and> stabilize_default rand1 (run rand1 (SandPile n cm) calls)
          = stabilize_default rand2 (run rand2 (SandPile n cm) calls)
      \<and> rngCalls (snd (stabilize_default rand1 (run rand1 (SandPile n cm) calls))) = 0)
   \<and> (randomnessFactor s = 0 \<longrightarrow>
        topple rand1 x y (s, nu) =
          (case distributeToNeighbors (grid s (x, y) div 4) (getNeighbors x y)
                  (s\<lparr> grid := (grid s)((x, y) := js_rem (grid s (x, y)) 4) \<rparr>, nu) of
             (s2, nu2) \<Rightarrow>
               if grid s2 (x, y) \<ge> criticalMass s2 then (s2, set_add (x, y) nu2) else (s2, nu2)))"
proof (intro conjI impI)
  assume a: "\<forall>c \<in> set calls. keepsDeterministic c"
  have r0: "randomnessFactor (SandPile n cm) = 0" "rngCalls (SandPile n cm) = 0"
    by (simp_all add: SandPile_def)
  have e: "run rand1 (SandPile n cm) calls = run rand2 (SandPile n cm) calls"
    using run_det [OF a r0(1)] .
  note rr = run_det_rng [OF a r0(1), of rand1]
  have r1: "randomnessFactor (run rand1 (SandPile n cm) calls) = 0" using rr by simp
  have s: "stabilizeLoop rand1 1000 0 (run rand1 (SandPile n cm) calls)
             = stabilizeLoop rand2 1000 0 (run rand1 (SandPile n cm) calls)"
    using stabilizeLoop_det [OF r1] .
  note sr = stabilizeLoop_det_rng [OF r1, of rand1 1000 0]
  show "run rand1 (SandPile n cm) calls = run rand2 (SandPile n cm) calls" using e .
  show "stabilize_default rand1 (run rand1 (SandPile n cm) calls)
          = stabilize_default rand2 (run rand2 (SandPile n cm) calls)"
    using e s by (simp add: stabilize_default_def stabilize_def)
  show "rngCalls (snd (stabilize_default rand1 (run rand1 (SandPile n cm) calls))) = 0"
    using sr rr r0 by (simp add: stabilize_default_def stabilize_def)
next
  assume "randomnessFactor s = 0"
  then show "topple rand1 x y (s, nu) =
          (case distributeToNeighbors (grid s (x, y) div 4) (getNeighbors x y)
                  (s\<lparr> grid := (grid s)((x, y) := js_rem (grid s (x, y)) 4) \<rparr>, nu) of
             (s2, nu2) \<Rightarrow>
               if grid s2 (x, y) \<ge> criticalMass s2 then (s2, set_add (x, y) nu2) else (s2, nu2))"
    by (rule topple_det_branch)
qed

theorem determinism_at_zero_randomness_witness:
  "list_all keepsDeterministic [AddSand 1 1 9, AddSand 0 0 5, SetRandomnessFactor 0]
   \<and> stabilize_default zeroOracle
        (run zeroOracle (SandPile 3 4) [AddSand 1 1 9, AddSand 0 0 5, SetRandomnessFactor 0])
     = stabilize_default halfOracle
        (run halfOracle (SandPile 3 4) [AddSand 1 1 9, AddSand 0 0 5, SetRandomnessFactor 0])
   \<and> randomnessFactor (addSand 1 1 9 (SandPile 3 4)) = 0
   \<and> getSand (fst (topple halfOracle 1 1 (addSand 1 1 9 (SandPile 3 4), []))) 1 1 = 1
   \<and> rngCalls (fst (topple halfOracle 1 1 (addSand 1 1 9 (SandPile 3 4), []))) = 0"
proof -
  let ?calls = "[AddSand 1 1 9, AddSand 0 0 5, SetRandomnessFactor 0]"
  have h: "\<forall>c \<in> set ?calls. keepsDeterministic c" by simp
  have r: "randomnessFactor (addSand 1 1 9 (SandPile 3 4)) = 0" by (simp add: pile_eval)
  note t = determinism_at_zero_randomness [of ?calls zeroOracle 3 4 halfOracle
              "SandPile 3 4" 0 0 "[]"]
  note u = determinism_at_zero_randomness [of "[]" halfOracle 3 4 halfOracle
              "addSand 1 1 9 (SandPile 3 4)" 1 1 "[]"]
  have v: "getSand (fst (topple halfOracle 1 1 (addSand 1 1 9 (SandPile 3 4), []))) 1 1 = 1
     \<and> rngCalls (fst (topple halfOracle 1 1 (addSand 1 1 9 (SandPile 3 4), []))) = 0"
    using u r by (simp add: pile_eval)
  have t1: "stabilize_default zeroOracle (run zeroOracle (SandPile 3 4) ?calls)
     = stabilize_default halfOracle (run halfOracle (SandPile 3 4) ?calls)"
    using t h by blast
  have l: "list_all keepsDeterministic ?calls" by simp
  show ?thesis using t1 l r v by blast
qed

subsection \<open>C4: the unstable set\<close>




subsection \<open>C5: the topple step\<close>

text \<open>
  C5: on an 8 by 8 grid with critical mass 4 and randomness factor 0, \<^verbatim>\<open>addSand(4, 4, 4)\<close>
  and one pass leave cell (4,4) at 0 and its four neighbours at 1, and the pass reports a
  topple. In general, at randomness factor 0 a topple of a cell of height \<open>h \<ge> 0\<close> sets it
  to \<open>h mod 4\<close>, adds \<open>h div 4\<close> to each of its four neighbours that is on the grid, and
  changes no other cell.
\<close>

theorem topple_step:
  "(case processAvalanches rand (addSand 4 4 4 (SandPile 8 4)) of
      (occurred, s1) \<Rightarrow>
        occurred \<and> getSand s1 4 4 = 0 \<and> getSand s1 3 4 = 1 \<and> getSand s1 5 4 = 1
        \<and> getSand s1 4 3 = 1 \<and> getSand s1 4 5 = 1)
   \<and> (randomnessFactor s = 0 \<and> 0 \<le> grid s (x, y) \<longrightarrow>
        grid (fst (topple rand x y (s, nu))) (cx, cy) =
          (if (cx, cy) = (x, y) then grid s (x, y) mod 4
           else if (cx, cy) \<in> set (getNeighbors x y) \<and> isValidGridPosition cx cy (size_p s)
           then grid s (cx, cy) + grid s (x, y) div 4
           else grid s (cx, cy)))"
proof
  show "case processAvalanches rand (addSand 4 4 4 (SandPile 8 4)) of
      (occurred, s1) \<Rightarrow>
        occurred \<and> getSand s1 4 4 = 0 \<and> getSand s1 3 4 = 1 \<and> getSand s1 5 4 = 1
        \<and> getSand s1 4 3 = 1 \<and> getSand s1 4 5 = 1"
    by (simp add: pile_eval)
next
  show "randomnessFactor s = 0 \<and> 0 \<le> grid s (x, y) \<longrightarrow>
        grid (fst (topple rand x y (s, nu))) (cx, cy) =
          (if (cx, cy) = (x, y) then grid s (x, y) mod 4
           else if (cx, cy) \<in> set (getNeighbors x y) \<and> isValidGridPosition cx cy (size_p s)
           then grid s (cx, cy) + grid s (x, y) div 4
           else grid s (cx, cy))"
  proof
    assume a: "randomnessFactor s = 0 \<and> 0 \<le> grid s (x, y)"
    let ?s1 = "s\<lparr> grid := (grid s)((x, y) := js_rem (grid s (x, y)) 4) \<rparr>"
    let ?d = "distributeToNeighbors (grid s (x, y) div 4) (getNeighbors x y) (?s1, nu)"
    have dist: "distinct (getNeighbors x y)" by (simp add: getNeighbors_def)
    have notin: "(x, y) \<notin> set (getNeighbors x y)" by (simp add: getNeighbors_def)
    have t: "fst (topple rand x y (s, nu)) = fst ?d"
      using a by (simp add: topple_det_branch split: prod.splits)
    note g = grid_distributeToNeighbors [OF dist, of "grid s (x, y) div 4" ?s1 nu "(cx, cy)"]
    have r: "js_rem (grid s (x, y)) 4 = grid s (x, y) mod 4"
      using a by (simp add: js_rem_nonneg)
    show "grid (fst (topple rand x y (s, nu))) (cx, cy) =
          (if (cx, cy) = (x, y) then grid s (x, y) mod 4
           else if (cx, cy) \<in> set (getNeighbors x y) \<and> isValidGridPosition cx cy (size_p s)
           then grid s (cx, cy) + grid s (x, y) div 4
           else grid s (cx, cy))"
      unfolding t using g notin r by auto
  qed
qed

theorem topple_step_witness:
  "randomnessFactor (addSand 0 2 9 (SandPile 3 4)) = 0
   \<and> 0 \<le> grid (addSand 0 2 9 (SandPile 3 4)) (0, 2)
   \<and> grid (fst (topple halfOracle 0 2 (addSand 0 2 9 (SandPile 3 4), []))) (0, 2) = 1
   \<and> grid (fst (topple halfOracle 0 2 (addSand 0 2 9 (SandPile 3 4), []))) (1, 2) = 2
   \<and> grid (fst (topple halfOracle 0 2 (addSand 0 2 9 (SandPile 3 4), []))) (0, 1) = 2
   \<and> grid (fst (topple halfOracle 0 2 (addSand 0 2 9 (SandPile 3 4), []))) (0, 3) = 0
   \<and> grid (fst (topple halfOracle 0 2 (addSand 0 2 9 (SandPile 3 4), []))) (2, 2) = 0"
proof -
  let ?s = "addSand 0 2 9 (SandPile 3 4)"
  have h: "randomnessFactor ?s = 0 \<and> 0 \<le> grid ?s (0, 2)" by (simp add: pile_eval)
  have g: "grid ?s (0, 2) = 9" "grid ?s (1, 2) = 0" "grid ?s (0, 1) = 0" "grid ?s (0, 3) = 0"
    "grid ?s (2, 2) = 0" "size_p ?s = 3"
    by (simp_all add: pile_eval)
  note t = topple_step [of halfOracle ?s 0 2 "[]"]
  have 1: "grid (fst (topple halfOracle 0 2 (?s, []))) (0, 2) = 1"
    using t [of 0 2] h g by (simp add: getNeighbors_def isValidGridPosition_def)
  have 2: "grid (fst (topple halfOracle 0 2 (?s, []))) (1, 2) = 2"
    using t [of 1 2] h g by (simp add: getNeighbors_def isValidGridPosition_def)
  have 3: "grid (fst (topple halfOracle 0 2 (?s, []))) (0, 1) = 2"
    using t [of 0 1] h g by (simp add: getNeighbors_def isValidGridPosition_def)
  have 4: "grid (fst (topple halfOracle 0 2 (?s, []))) (0, 3) = 0"
    using t [of 0 3] h g by (simp add: getNeighbors_def isValidGridPosition_def)
  have 5: "grid (fst (topple halfOracle 0 2 (?s, []))) (2, 2) = 0"
    using t [of 2 2] h g by (simp add: getNeighbors_def isValidGridPosition_def)
  show ?thesis using h 1 2 3 4 5 by simp
qed

subsection \<open>C6: coordinates off the grid\<close>

text \<open>
  C6: for every state, \<^verbatim>\<open>addSand\<close> at coordinates off the grid returns the state
  unchanged in every field (grid, total and unstable set included) and \<^verbatim>\<open>getSand\<close> there
  returns 0; in particular \<^verbatim>\<open>addSand(-1, -1, 5)\<close> and \<^verbatim>\<open>getSand(-1, -1)\<close>, whatever the grid
  size. Neither has an error branch.
\<close>

theorem out_of_range_is_ignored:
  "(\<not> isValidGridPosition x y (size_p s) \<longrightarrow>
      addSand x y amount s = s \<and> getSand s x y = 0)
   \<and> addSand (- 1) (- 1) 5 s = s \<and> getSand s (- 1) (- 1) = 0"
  by (simp add: addSand_def getSand_def isValidGridPosition_def)

theorem out_of_range_is_ignored_witness:
  "\<not> isValidGridPosition 8 3 (size_p (addSand 4 4 4 (SandPile 8 4)))
   \<and> addSand 8 3 7 (addSand 4 4 4 (SandPile 8 4)) = addSand 4 4 4 (SandPile 8 4)
   \<and> getSand (addSand 4 4 4 (SandPile 8 4)) 8 3 = 0
   \<and> getSand (addSand 4 4 4 (SandPile 8 4)) 4 4 = 4"
proof -
  have v: "\<not> isValidGridPosition 8 3 (size_p (addSand 4 4 4 (SandPile 8 4)))"
    by (simp add: pile_eval)
  have g: "getSand (addSand 4 4 4 (SandPile 8 4)) 4 4 = 4"
    by (simp add: pile_eval)
  from out_of_range_is_ignored [of 8 3 "addSand 4 4 4 (SandPile 8 4)" 7] v g
  show ?thesis by simp
qed

subsection \<open>C7: stabilize twice\<close>

text \<open>
  C7 says that a second \<^verbatim>\<open>stabilize()\<close> right after a first returns 0 and changes
  nothing, for every state. With critical mass 3, a cell of height 3 topples in every
  pass and keeps its 3 grains (\<open>3 div 4 = 0\<close>, \<open>3 mod 4 = 3\<close>): the first \<^verbatim>\<open>stabilize()\<close> runs
  into its cap of 1000 passes, and so does the second, which returns 1000 and raises the
  count of avalanches from 1000 to 2000.
\<close>

theorem stabilize_twice_at_cap:
  "stabilize_default zeroOracle (addSand 4 4 3 (SandPile 8 3)) = (1000, stuckPile 1000)
   \<and> stabilize_default zeroOracle (stuckPile 1000) = (1000, stuckPile 2000)
   \<and> totalAvalanches (stuckPile 1000) = 1000 \<and> totalAvalanches (stuckPile 2000) = 2000"
proof -
  have ne: "unstableCells (stuckPile k) \<noteq> []" for k by (simp add: stuckPile_def)
  have ne0: "unstableCells (addSand 4 4 3 (SandPile 8 3)) \<noteq> []"
    by (simp add: addSand_def SandPile_def isValidGridPosition_def set_add_def Let_def)
  have a: "stabilizeLoop zeroOracle 1000 0 (addSand 4 4 3 (SandPile 8 3))
             = stabilizeLoop zeroOracle 1000 1 (stuckPile 1)"
    using ne0 by (simp add: stabilizeLoop_step stuckPile_first)
  have b: "stabilizeLoop zeroOracle 1000 1 (stuckPile 1) = (1000, stuckPile (1 + nat (1000 - 1)))"
    using stabilizeLoop_stuck [where S = stuckPile and rand = zeroOracle and i = 1 and m = 1000
        and k = 1, OF stuckPile_step ne] by simp
  have c: "stabilizeLoop zeroOracle 1000 0 (stuckPile 1000) = (1000, stuckPile (1000 + nat (1000 - 0)))"
    using stabilizeLoop_stuck [where S = stuckPile and rand = zeroOracle and i = 0 and m = 1000
        and k = 1000, OF stuckPile_step ne] by simp
  show ?thesis
    using a b c by (simp add: stabilize_default_def stabilize_def stuckPile_def)
qed

text \<open>
  C7 as amended: when a call of \<^verbatim>\<open>stabilize\<close> returns fewer iterations than its cap, or
  returns with the unstable set empty, a call of \<^verbatim>\<open>stabilize\<close> right after it (with any
  cap) returns 0 iterations and leaves every field of the state unchanged.
\<close>

theorem stabilize_after_stable_is_noop:
  assumes "stabilize rand m s = (i, s')" "i < m \<or> isStable s'"
  shows "stabilize rand' m' s' = (0, s')"
proof -
  have "unstableCells s' = []"
    using assms stabilizeLoop_stable [of rand m 0 s i s'] by (auto simp: stabilize_def isStable_def)
  then show ?thesis by (simp add: stabilize_def stabilizeLoop_stop)
qed

theorem stabilize_after_stable_is_noop_witness:
  "fst (stabilize_default zeroOracle (addSand 4 4 4 (SandPile 8 4))) = 1
   \<and> isStable (snd (stabilize_default zeroOracle (addSand 4 4 4 (SandPile 8 4))))
   \<and> stabilize_default zeroOracle (snd (stabilize_default zeroOracle (addSand 4 4 4 (SandPile 8 4))))
       = (0, snd (stabilize_default zeroOracle (addSand 4 4 4 (SandPile 8 4))))"
proof -
  let ?r = "stabilize zeroOracle 1000 (addSand 4 4 4 (SandPile 8 4))"
  have e: "stabilize zeroOracle 1000 (addSand 4 4 4 (SandPile 8 4)) = (fst ?r, snd ?r)" by simp
  have i: "fst ?r = 1" by (simp add: pile_eval)
  have st: "isStable (snd ?r)" by (simp add: pile_eval)
  have "fst ?r < 1000 \<or> isStable (snd ?r)" using i by simp
  from stabilize_after_stable_is_noop [OF e this, of zeroOracle 1000] i st
  show ?thesis by (simp add: stabilize_default_def)
qed

subsection \<open>C8: pause\<close>

text \<open>
  C8: when the simulation is paused, \<^verbatim>\<open>update\<close> returns the state unchanged in every
  field: the pile, the sources with their accumulators, the frame count, the simulation
  time and the time of the last update.
\<close>

theorem paused_update_is_identity:
  "paused sim \<Longrightarrow> sim_update rand currentTime sim = sim"
  by (simp add: sim_update_def)

theorem paused_update_is_identity_witness:
  "paused (setPaused True 5 exampleSimulation)
   \<and> sim_update zeroOracle 16 (setPaused True 5 exampleSimulation)
       = setPaused True 5 exampleSimulation"
proof -
  have p: "paused (setPaused True 5 exampleSimulation)"
    by (simp add: setPaused_def)
  from paused_update_is_identity [OF p, of zeroOracle 16] p show ?thesis by simp
qed

subsection \<open>C9: the carry of a source\<close>



subsection \<open>C10: removeSource\<close>

text \<open>
  C10: \<^verbatim>\<open>removeSource\<close> returns \<^verbatim>\<open>null\<close> and changes nothing when there is no source, or
  when the index is not -1 and lies outside the range of the sources. With no index, or
  -1, it removes and returns the last source; with an index in range it removes and
  returns the source at that index, the others keeping their order. In both cases the
  count goes down by one and no other field changes.
\<close>

theorem removeSource_cases:
  "(sources sim = [] \<longrightarrow> removeSource arg sim = (None, sim))
   \<and> (sources sim \<noteq> [] \<and> (arg = None \<or> arg = Some (- 1)) \<longrightarrow>
        removeSource arg sim
          = (Some (last (sources sim)), sim\<lparr> sources := butlast (sources sim) \<rparr>)
        \<and> sources (snd (removeSource arg sim)) @ [last (sources sim)] = sources sim
        \<and> getSourceCount (snd (removeSource arg sim)) = getSourceCount sim - 1)
   \<and> (sources sim \<noteq> [] \<and> arg = Some i \<and> 0 \<le> i \<and> i < getSourceCount sim \<longrightarrow>
        fst (removeSource arg sim) = Some (sources sim ! nat i)
        \<and> sim\<lparr> sources := sources (snd (removeSource arg sim)) \<rparr>
            = snd (removeSource arg sim)
        \<and> take (nat i) (sources (snd (removeSource arg sim))) @ [sources sim ! nat i]
              @ drop (nat i) (sources (snd (removeSource arg sim)))
            = sources sim
        \<and> getSourceCount (snd (removeSource arg sim)) = getSourceCount sim - 1)
   \<and> (sources sim \<noteq> [] \<and> arg = Some i \<and> i \<noteq> - 1 \<and> (i < 0 \<or> getSourceCount sim \<le> i) \<longrightarrow>
        removeSource arg sim = (None, sim))"
proof (intro conjI impI)
  assume "sources sim = []"
  then show "removeSource arg sim = (None, sim)" by (simp add: removeSource_def)
next
  assume a: "sources sim \<noteq> [] \<and> (arg = None \<or> arg = Some (- 1))"
  then have r: "removeSource arg sim
          = (Some (last (sources sim)), sim\<lparr> sources := butlast (sources sim) \<rparr>)"
    by (auto simp: removeSource_def)
  then show "removeSource arg sim
          = (Some (last (sources sim)), sim\<lparr> sources := butlast (sources sim) \<rparr>)" .
  show "sources (snd (removeSource arg sim)) @ [last (sources sim)] = sources sim"
    using a r by simp
  show "getSourceCount (snd (removeSource arg sim)) = getSourceCount sim - 1"
    using a r by (simp add: getSourceCount_def of_nat_diff Suc_leI)
next
  assume a: "sources sim \<noteq> [] \<and> arg = Some i \<and> 0 \<le> i \<and> i < getSourceCount sim"
  let ?k = "nat i"
  have k: "?k < length (sources sim)" "int ?k = i"
    using a by (auto simp: getSourceCount_def)
  have ne: "i \<noteq> - 1" using a by simp
  have r: "removeSource arg sim
          = (Some (sources sim ! ?k),
             sim\<lparr> sources := take ?k (sources sim) @ drop (?k + 1) (sources sim) \<rparr>)"
    using a ne by (simp add: removeSource_def getSourceCount_def)
  show "fst (removeSource arg sim) = Some (sources sim ! nat i)" using r by simp
  show "sim\<lparr> sources := sources (snd (removeSource arg sim)) \<rparr> = snd (removeSource arg sim)"
    using r by simp
  have t: "take ?k (take ?k (sources sim) @ drop (?k + 1) (sources sim)) = take ?k (sources sim)"
    using k by simp
  have d: "drop ?k (take ?k (sources sim) @ drop (?k + 1) (sources sim))
             = drop (Suc ?k) (sources sim)"
    using k by simp
  show "take (nat i) (sources (snd (removeSource arg sim))) @ [sources sim ! nat i]
              @ drop (nat i) (sources (snd (removeSource arg sim)))
            = sources sim"
    using r t d k id_take_nth_drop [of ?k "sources sim"] by simp
  show "getSourceCount (snd (removeSource arg sim)) = getSourceCount sim - 1"
    using r k by (simp add: getSourceCount_def)
next
  assume "sources sim \<noteq> [] \<and> arg = Some i \<and> i \<noteq> - 1 \<and> (i < 0 \<or> getSourceCount sim \<le> i)"
  then show "removeSource arg sim = (None, sim)"
    by (auto simp: removeSource_def getSourceCount_def)
qed

theorem removeSource_cases_witness:
  "removeSource None (exampleSimulation\<lparr> sources := [] \<rparr>)
     = (None, exampleSimulation\<lparr> sources := [] \<rparr>)
   \<and> fst (removeSource None exampleSimulation) = Some (SandSource 5 2 1 8 ''b'')
   \<and> sources (snd (removeSource None exampleSimulation)) = [SandSource 3 3 (3 / 2) 8 ''a'']
   \<and> fst (removeSource (Some 0) exampleSimulation) = Some (SandSource 3 3 (3 / 2) 8 ''a'')
   \<and> getSourceCount (snd (removeSource (Some 0) exampleSimulation)) = 1
   \<and> removeSource (Some 2) exampleSimulation = (None, exampleSimulation)
   \<and> removeSource (Some (- 3)) exampleSimulation = (None, exampleSimulation)"
proof -
  have s: "sources exampleSimulation = [SandSource 3 3 (3 / 2) 8 ''a'', SandSource 5 2 1 8 ''b'']"
    and c: "getSourceCount exampleSimulation = 2"
    by (simp_all add: exampleSimulation_def Simulation_def getSourceCount_def)
  have e: "sources (exampleSimulation\<lparr> sources := [] \<rparr>) = []" by simp
  have 1: "removeSource None (exampleSimulation\<lparr> sources := [] \<rparr>)
     = (None, exampleSimulation\<lparr> sources := [] \<rparr>)"
    using removeSource_cases [of "exampleSimulation\<lparr> sources := [] \<rparr>" None 0] e by blast
  have 2: "removeSource None exampleSimulation
          = (Some (last (sources exampleSimulation)),
             exampleSimulation\<lparr> sources := butlast (sources exampleSimulation) \<rparr>)"
    using s removeSource_cases [of exampleSimulation None 0] by simp
  have 3: "fst (removeSource (Some 0) exampleSimulation) = Some (sources exampleSimulation ! nat 0)
     \<and> getSourceCount (snd (removeSource (Some 0) exampleSimulation))
         = getSourceCount exampleSimulation - 1"
    using s c removeSource_cases [of exampleSimulation "Some 0" 0] by simp
  have 4: "removeSource (Some 2) exampleSimulation = (None, exampleSimulation)"
    using s c removeSource_cases [of exampleSimulation "Some 2" 2] by simp
  have 5: "removeSource (Some (- 3)) exampleSimulation = (None, exampleSimulation)"
    using s c removeSource_cases [of exampleSimulation "Some (- 3)" "- 3"] by simp
  show ?thesis
    using 1 2 3 4 5 by (simp add: s c)
qed

section \<open>Further properties\<close>

subsection \<open>The samples that getSignalData does return\<close>

text \<open>
  For a buffer of \<open>n > 0\<close> places into which the samples \<open>xs\<close> have been pushed: the
  available length is \<open>min (length xs) n\<close>; a request for \<open>l\<close> samples with
  \<open>0 < l \<le> min (length xs) n\<close> returns the \<open>l\<close> most recent samples, oldest first; a
  request without a length returns all available samples, oldest first; and before the
  buffer has wrapped, a request for more samples than were pushed returns the samples
  pushed, followed by zeros up to the requested length.
\<close>

theorem getSignalData_recent_samples:
  assumes "0 < n"
  shows "getAvailableDataLength (addSamples xs (SeismographData (int n))) = int (min (length xs) n)
     \<and> (0 < l \<and> l \<le> min (length xs) n \<longrightarrow>
          getSignalData (Some (int l)) (addSamples xs (SeismographData (int n)))
            = Inr (drop (length xs - l) xs))
     \<and> getSignalData None (addSamples xs (SeismographData (int n)))
          = Inr (drop (length xs - min (length xs) n) xs)
     \<and> (length xs < n \<and> length xs < l \<longrightarrow>
          getSignalData (Some (int l)) (addSamples xs (SeismographData (int n)))
            = Inr (xs @ replicate (l - length xs) (Sample 0)))"
proof -
  let ?d = "addSamples xs (SeismographData (int n))"
  note inv = bufferInv_addSamples [OF assms, of xs]
  note av = available_eq [OF inv]
  have a: "getSignalData (Some (int l)) ?d = Inr (drop (length xs - l) xs)"
    if "0 < l" "l \<le> min (length xs) n"
    using recent_core [OF assms inv that(2), of "Some (int l)"] that(1) by simp
  have b: "getSignalData None ?d = Inr (drop (length xs - min (length xs) n) xs)"
    using recent_core [OF assms inv order_refl, of None] av by simp
  have c: "getSignalData (Some (int l)) ?d = Inr (xs @ replicate (l - length xs) (Sample 0))"
    if "length xs < n" "length xs < l"
    using padded_core [OF assms inv that] .
  show ?thesis using av a b c by blast
qed

theorem getSignalData_recent_samples_witness:
  "(0::nat) < 4
   \<and> getSignalData (Some 3)
        (addSamples [Sample 1, Sample 2, Sample 3, Sample 4, Sample 5, Sample 6] (SeismographData 4))
      = Inr [Sample 4, Sample 5, Sample 6]
   \<and> getSignalData None
        (addSamples [Sample 1, Sample 2, Sample 3, Sample 4, Sample 5, Sample 6] (SeismographData 4))
      = Inr [Sample 3, Sample 4, Sample 5, Sample 6]
   \<and> getSignalData (Some 3) (addSamples [Sample 1, Sample 2] (SeismographData 4))
      = Inr [Sample 1, Sample 2, Sample 0]"
proof -
  let ?xs = "[Sample 1, Sample 2, Sample 3, Sample 4, Sample 5, Sample 6]"
  have n: "(0::nat) < 4" by simp
  from getSignalData_recent_samples [OF n, of ?xs 3]
       getSignalData_recent_samples [OF n, of "[Sample 1, Sample 2]" 3]
  show ?thesis by (simp add: numeral_eq_Suc)
qed

subsection \<open>What a topple drops\<close>

text \<open>
  A topple of a cell of the grid, at any randomness factor and with any random draws,
  takes from the running total exactly \<open>h div 4\<close> grains for each of the four neighbours
  that lies off the grid, and nothing else: a jitter amount always finds a candidate (the
  toppled cell itself is one), so the branch that discards jitter is never taken.
\<close>

theorem topple_loses_only_off_grid_shares:
  assumes "isValidGridPosition x y (size_p s)"
  shows "exitedSand (fst (topple rand x y (s, nu)))
           = exitedSand s + (grid s (x, y) div 4) * offGridCount (size_p s) (getNeighbors x y)
     \<and> totalSand (fst (topple rand x y (s, nu)))
           = totalSand s - (grid s (x, y) div 4) * offGridCount (size_p s) (getNeighbors x y)"
proof -
  let ?k = "grid s (x, y) div 4"
  let ?s1 = "s\<lparr> grid := (grid s)((x, y) := js_rem (grid s (x, y)) 4) \<rparr>"
  let ?d = "if randomnessFactor ?s1 > 0
            then distributeWithRandomness rand ?k (getNeighbors x y) (?s1, nu)
            else distributeToNeighbors ?k (getNeighbors x y) (?s1, nu)"
  have l: "ledger (fst ?d) =
     (size_p s, randomnessFactor s, totalSand s - ?k * offGridCount (size_p s) (getNeighbors x y),
      exitedSand s + ?k * offGridCount (size_p s) (getNeighbors x y))"
  proof (cases "randomnessFactor s > 0")
    case False
    then show ?thesis
      using ledger_distributeToNeighbors [of ?k "getNeighbors x y" ?s1 nu] by simp
  next
    case True
    then have "0 < randomnessFactor s * 2" by simp
    then have r: "1 \<le> \<lceil>randomnessFactor s * 2\<rceil>" by linarith
    have "\<forall>(nx, ny) \<in> set (getNeighbors x y). isValidGridPosition nx ny (size_p ?s1)
       \<longrightarrow> jitterCandidates nx ny \<lceil>randomnessFactor ?s1 * 2\<rceil> (size_p ?s1) \<noteq> []"
      using jitterCandidates_nonempty [OF assms _ r] by auto
    from ledger_distributeWithRandomness [OF this, of rand ?k nu] True
    show ?thesis by simp
  qed
  have t: "fst (topple rand x y (s, nu)) = fst ?d"
    by (simp add: topple_def Let_def split: prod.splits)
  show ?thesis
    using l unfolding t by (simp add: ledger_def)
qed

theorem topple_loses_only_off_grid_shares_witness:
  "isValidGridPosition 0 2 (size_p (addSand 0 2 9 (SandPile 3 4)))
   \<and> offGridCount 3 (getNeighbors 0 2) = 2
   \<and> exitedSand (fst (topple halfOracle 0 2 (addSand 0 2 9 (SandPile 3 4), []))) = 4
   \<and> totalSand (fst (topple halfOracle 0 2 (addSand 0 2 9 (SandPile 3 4), []))) = 5"
proof -
  let ?s = "addSand 0 2 9 (SandPile 3 4)"
  have v: "isValidGridPosition 0 2 (size_p ?s)" by (simp add: pile_eval)
  have g: "grid ?s (0, 2) = 9" "size_p ?s = 3" "exitedSand ?s = 0" "totalSand ?s = 9"
    by (simp_all add: pile_eval)
  have o: "offGridCount 3 (getNeighbors 0 2) = 2"
    by (simp add: offGridCount_def getNeighbors_def isValidGridPosition_def)
  from topple_loses_only_off_grid_shares [OF v, of halfOracle "[]"] v g o
  show ?thesis by simp
qed

subsection \<open>The iterations of stabilize\<close>

text \<open>
  \<^verbatim>\<open>stabilize(maxIterations)\<close> always returns: the number of iterations is at least 0 and
  at most the cap (0 for a negative cap), and when it is below the cap the pile reports
  stable.
\<close>

theorem stabilize_iterations:
  "0 \<le> fst (stabilize rand maxIterations s)
   \<and> fst (stabilize rand maxIterations s) \<le> max 0 maxIterations
   \<and> (fst (stabilize rand maxIterations s) < maxIterations
        \<longrightarrow> isStable (snd (stabilize rand maxIterations s)))"
proof -
  obtain i s' where r: "stabilizeLoop rand maxIterations 0 s = (i, s')"
    by (cases "stabilizeLoop rand maxIterations 0 s")
  have b: "0 \<le> i \<and> i \<le> max 0 maxIterations"
    using stabilizeLoop_bounds [of 0 rand maxIterations s] r by simp
  have st: "i < maxIterations \<Longrightarrow> unstableCells s' = []"
    using stabilizeLoop_stable [OF r] .
  show ?thesis
    using b st r by (simp add: stabilize_def isStable_def)
qed

theorem stabilize_iterations_witness:
  "fst (stabilize zeroOracle 1000 (addSand 4 4 4 (SandPile 8 4))) < 1000
   \<and> isStable (snd (stabilize zeroOracle 1000 (addSand 4 4 4 (SandPile 8 4))))
   \<and> fst (stabilize zeroOracle 1 (addSand 4 4 16 (SandPile 8 4))) \<le> 1"
proof -
  have a: "fst (stabilize zeroOracle 1000 (addSand 4 4 4 (SandPile 8 4))) < 1000"
    by (simp add: pile_eval)
  from stabilize_iterations [of zeroOracle 1000 "addSand 4 4 4 (SandPile 8 4)"]
       stabilize_iterations [of zeroOracle 1 "addSand 4 4 16 (SandPile 8 4)"] a
  show ?thesis by simp
qed

subsection \<open>Resuming\<close>

text \<open>
  \<^verbatim>\<open>setPaused(false)\<close> takes the clock as the new baseline: the next \<^verbatim>\<open>update\<close> advances the
  simulation time by the time elapsed since the resume only (in seconds), counts one
  frame and moves the baseline on. \<^verbatim>\<open>setPaused\<close> changes neither the pile nor the sources.
\<close>

theorem resume_resets_baseline:
  "\<not> paused (setPaused False resumeTime sim)
   \<and> lastUpdateTime (setPaused False resumeTime sim) = resumeTime
   \<and> simulationTime (sim_update rand currentTime (setPaused False resumeTime sim))
       = simulationTime sim + (currentTime - resumeTime) / 1000
   \<and> frameCount (sim_update rand currentTime (setPaused False resumeTime sim))
       = frameCount sim + 1
   \<and> lastUpdateTime (sim_update rand currentTime (setPaused False resumeTime sim))
       = currentTime
   \<and> sandPile (setPaused p resumeTime sim) = sandPile sim
   \<and> sources (setPaused p resumeTime sim) = sources sim"
  by (simp add: setPaused_def sim_update_def sim_processAvalanches_def Let_def
        updateSourcesLoop_fields)

theorem resume_resets_baseline_witness:
  "\<not> paused (setPaused False 40 (setPaused True 5 exampleSimulation))
   \<and> simulationTime (sim_update zeroOracle 56 (setPaused False 40 (setPaused True 5 exampleSimulation)))
       = 2 / 125
   \<and> frameCount (sim_update zeroOracle 56 (setPaused False 40 (setPaused True 5 exampleSimulation)))
       = 1"
proof -
  have s: "simulationTime (setPaused True 5 exampleSimulation) = 0"
    "frameCount (setPaused True 5 exampleSimulation) = 0"
    by (simp_all add: setPaused_def exampleSimulation_def Simulation_def)
  from resume_resets_baseline [of 40 "setPaused True 5 exampleSimulation" zeroOracle 56 False] s
  show ?thesis by simp
qed

end
